theory Spec2Isabelle
  imports Complex_Main "HOL-Library.AList" "HOL-Library.Multiset"
begin

section \<open>Data model\<close>

text \<open>
  The player component (\<^verbatim>\<open>components/Player.tsx\<close>) and \<^verbatim>\<open>types.ts\<close>.
  JavaScript numbers that carry times, durations and speeds are modelled by \<^typ>\<open>real\<close>:
  the model covers finite values.  The duration model and the filter are given with exact
  arithmetic first, and again with the rounding of every result made explicit.  Packed
  colours and track indices are integers.  A JavaScript string is a list whose elements
  stand for its UTF-16 code units; only the number of units is ever used.
\<close>

record DanmakuItem =
  time :: real
  type_d :: int
  size_d :: int
  color :: int
  timestamp :: int
  pool :: int
  uid :: string
  rowId :: string
  content :: string
  senderName :: "string option"
  medalName :: "string option"
  medalLevel :: "int option"
  medalColorBorder :: "string option"
  trackIndex :: int
  emots :: "(string \<times> string) list option"
  stickerUrl :: "string option"

text \<open>The items produced by \<^verbatim>\<open>{ ...d, actualDuration }\<close>.\<close>

record OverlayDanmaku = DanmakuItem +
  actualDuration :: real

text \<open>The settings object \<^verbatim>\<open>danmakuSettings\<close>.\<close>

record DanmakuSettings =
  show_s :: bool
  opacity :: real
  size_s :: real
  speed :: real
  playbackRate :: real
  longPressRate :: real

section \<open>Overlay scheduler: \<^verbatim>\<open>activeOverlayDanmaku\<close>\<close>

definition BASE_DURATION :: real where
  "BASE_DURATION = 16"

text \<open>\<^verbatim>\<open>const maxDuration = BASE_DURATION / (danmakuSettings.speed * 0.75)\<close>\<close>

definition maxDuration :: "DanmakuSettings \<Rightarrow> real" where
  "maxDuration s = BASE_DURATION / (speed s * 0.75)"

text \<open>
  The callback of \<^verbatim>\<open>.map\<close>: \<^verbatim>\<open>len = d.content.length || 1\<close>, the clamp by
  \<^verbatim>\<open>Math.min(Math.max(len, 1), 10)\<close>, the ratio, the intrinsic factor and the duration.
\<close>

definition withActualDuration :: "DanmakuSettings \<Rightarrow> DanmakuItem \<Rightarrow> OverlayDanmaku" where
  "withActualDuration s d =
     (let len = (if length (content d) = 0 then 1 else int (length (content d)));
          clampedLen = min (max len 1) 10;
          ratio = (real_of_int clampedLen - 1) / 9;
          intrinsicFactor = 1.0 - (ratio * 0.25);
          actualDuration = BASE_DURATION / (speed s * intrinsicFactor)
      in DanmakuItem.extend d (OverlayDanmaku.fields actualDuration))"

text \<open>The two filter callbacks.\<close>

definition firstPass :: "DanmakuSettings \<Rightarrow> real \<Rightarrow> DanmakuItem \<Rightarrow> bool" where
  "firstPass s smoothTime d \<longleftrightarrow>
     time d \<ge> smoothTime - maxDuration s \<and> time d \<le> smoothTime + 0.5"

definition secondPass :: "real \<Rightarrow> OverlayDanmaku \<Rightarrow> bool" where
  "secondPass smoothTime d \<longleftrightarrow>
     time d \<ge> smoothTime - actualDuration d \<and> time d \<le> smoothTime + 0.5"

text \<open>
  The memoised value \<^verbatim>\<open>activeOverlayDanmaku\<close>.  With \<^verbatim>\<open>speed = 0\<close> the source divides
  by zero and continues with \<^verbatim>\<open>Infinity\<close>, a value outside the reals (in HOL
  \<open>x / 0 = 0\<close>); the model returns \<open>None\<close> there instead of a wrong list.
\<close>

definition activeOverlayDanmaku ::
  "DanmakuItem list \<Rightarrow> real \<Rightarrow> DanmakuSettings \<Rightarrow> OverlayDanmaku list option" where
  "activeOverlayDanmaku danmakuData smoothTime s =
     (if \<not> show_s s then Some []
      else if speed s = 0 then None
      else Some (filter (secondPass smoothTime)
                   (map (withActualDuration s)
                      (filter (firstPass s smoothTime) danmakuData))))"

subsection \<open>The duration model as the specification words it\<close>

definition clamp :: "int \<Rightarrow> int \<Rightarrow> int \<Rightarrow> int" where
  "clamp x lo hi = (if x < lo then lo else if hi < x then hi else x)"

definition spec_intrinsicFactor :: "int \<Rightarrow> real" where
  "spec_intrinsicFactor len = 1 - real_of_int (clamp len 1 10 - 1) / 9 * 0.25"

definition spec_length :: "string \<Rightarrow> int" where
  "spec_length c = (if c = [] then 1 else int (length c))"

definition spec_duration :: "real \<Rightarrow> int \<Rightarrow> real" where
  "spec_duration spd len = 16 / (spd * spec_intrinsicFactor len)"


section \<open>Double arithmetic\<close>

text \<open>
  A JavaScript number is a double, and every arithmetic operation returns its exact result
  rounded to a double.  The definitions above compute with the exact results.  The
  definitions of this section and of the next make the rounding explicit: \<open>rnd\<close> is the
  rounding of a real result to the nearest double, a parameter, and it is applied where
  the source performs an operation.  With \<open>round_binary64\<close> for \<open>rnd\<close> they compute what
  the source computes; with the identity they are the exact definitions again.  Results
  outside the range of the finite doubles (\<^verbatim>\<open>Infinity\<close>, \<^verbatim>\<open>NaN\<close>) are not represented.

  \<open>binary64_rounding\<close> collects what the bounds use of the rounding, and \<open>round_binary64\<close>
  is shown to have each part: it is monotone; it leaves \<open>n / 1024\<close> unchanged for every
  integer \<open>n\<close> of at most 30 bits; and below the overflow threshold the error of rounding
  \<open>x\<close> is at most \<open>|x| / 2 ^ 53\<close> (half a unit in the last place of a normal number) plus
  \<open>1 / 2 ^ 1075\<close> (half the spacing of the subnormal numbers).
\<close>

definition underflowUnit :: real where
  "underflowUnit = (1 / 2) ^ 1075"

definition overflowThreshold :: real where
  "overflowThreshold = 2 ^ 1023"

definition binary64_rounding :: "(real \<Rightarrow> real) \<Rightarrow> bool" where
  "binary64_rounding rnd \<longleftrightarrow>
     (\<forall>x y. x \<le> y \<longrightarrow> rnd x \<le> rnd y)
     \<and> (\<forall>n::int. \<bar>n\<bar> \<le> 2 ^ 30 \<longrightarrow> rnd (real_of_int n / 1024) = real_of_int n / 1024)
     \<and> (\<forall>x. \<bar>x\<bar> \<le> overflowThreshold \<longrightarrow> \<bar>rnd x - x\<bar> \<le> \<bar>x\<bar> / 2 ^ 53 + underflowUnit)"

text \<open>Exact arithmetic, the rounding that changes nothing.\<close>

definition exact :: "real \<Rightarrow> real" where
  "exact x = x"

text \<open>
  Rounding to nearest in binary64, ties to the even significand.  A double other than zero
  is an integer of at most 53 bits times a power of two; \<open>exponent x\<close> is the exponent of the
  binade of \<open>x\<close>, not below that of the smallest normal numbers, \<open>ulp x\<close> is the spacing of the
  doubles there, and the magnitude of \<open>x\<close> is rounded to the nearest multiple of that
  spacing.  Overflow to \<^verbatim>\<open>Infinity\<close>, which happens from \<open>2 ^ 1024 - 2 ^ 970\<close> on, is not
  represented, and neither is the sign of zero.
\<close>

definition roundEven :: "real \<Rightarrow> int" where
  "roundEven z = (let r = \<lfloor>z\<rfloor>; f = z - of_int r in
     if f < 1 / 2 then r else if 1 / 2 < f then r + 1 else if even r then r else r + 1)"

definition exponent :: "real \<Rightarrow> int" where
  "exponent x = max \<lfloor>log 2 \<bar>x\<bar>\<rfloor> (- 1022)"

definition ulp :: "real \<Rightarrow> real" where
  "ulp x = 2 powr real_of_int (exponent x - 52)"

definition magnitude :: "real \<Rightarrow> real" where
  "magnitude x = real_of_int (roundEven (\<bar>x\<bar> / ulp x)) * ulp x"

definition round_binary64 :: "real \<Rightarrow> real" where
  "round_binary64 x = (if x = 0 then 0 else sgn x * magnitude x)"

text \<open>
  \<^verbatim>\<open>activeOverlayDanmaku\<close> with the roundings: the factor and the duration of the \<^verbatim>\<open>.map\<close>
  callback, the bound of the first pass, the two windows.  The model returns \<open>None\<close> when
  a divisor is zero.
\<close>

definition intrinsicFactor_fl :: "(real \<Rightarrow> real) \<Rightarrow> DanmakuItem \<Rightarrow> real" where
  "intrinsicFactor_fl rnd d =
     (let len = (if length (content d) = 0 then 1 else int (length (content d)));
          clampedLen = min (max len 1) 10;
          ratio = rnd (real_of_int (clampedLen - 1) / 9)
      in rnd (1.0 - rnd (ratio * 0.25)))"

definition withActualDuration_fl ::
  "(real \<Rightarrow> real) \<Rightarrow> DanmakuSettings \<Rightarrow> DanmakuItem \<Rightarrow> OverlayDanmaku" where
  "withActualDuration_fl rnd s d =
     (let intrinsicFactor = intrinsicFactor_fl rnd d;
          actualDuration = rnd (BASE_DURATION / rnd (speed s * intrinsicFactor))
      in DanmakuItem.extend d (OverlayDanmaku.fields actualDuration))"

definition maxDuration_fl :: "(real \<Rightarrow> real) \<Rightarrow> DanmakuSettings \<Rightarrow> real" where
  "maxDuration_fl rnd s = rnd (BASE_DURATION / rnd (speed s * 0.75))"

definition firstPass_fl :: "(real \<Rightarrow> real) \<Rightarrow> DanmakuSettings \<Rightarrow> real \<Rightarrow> DanmakuItem \<Rightarrow> bool" where
  "firstPass_fl rnd s smoothTime d \<longleftrightarrow>
     time d \<ge> rnd (smoothTime - maxDuration_fl rnd s) \<and> time d \<le> rnd (smoothTime + 0.5)"

definition secondPass_fl :: "(real \<Rightarrow> real) \<Rightarrow> real \<Rightarrow> OverlayDanmaku \<Rightarrow> bool" where
  "secondPass_fl rnd smoothTime d \<longleftrightarrow>
     time d \<ge> rnd (smoothTime - actualDuration d) \<and> time d \<le> rnd (smoothTime + 0.5)"

definition activeOverlayDanmaku_fl ::
  "(real \<Rightarrow> real) \<Rightarrow> DanmakuItem list \<Rightarrow> real \<Rightarrow> DanmakuSettings \<Rightarrow> OverlayDanmaku list option" where
  "activeOverlayDanmaku_fl rnd danmakuData smoothTime s =
     (if \<not> show_s s then Some []
      else if rnd (speed s * 0.75) = 0
              \<or> (\<exists>d\<in>set danmakuData. rnd (speed s * intrinsicFactor_fl rnd d) = 0) then None
      else Some (filter (secondPass_fl rnd smoothTime)
                   (map (withActualDuration_fl rnd s)
                      (filter (firstPass_fl rnd s smoothTime) danmakuData))))"

section \<open>Overlay rendering\<close>

text \<open>
  The body of \<^verbatim>\<open>activeOverlayDanmaku.map((d, i) => ...)\<close> in the overlay: each
  \<^verbatim>\<open>const\<close> of the callback is one definition, with the rounding \<open>rnd\<close> of the results.
  The remainder operator of JavaScript truncates towards zero.
\<close>

definition jsRemainder :: "int \<Rightarrow> int \<Rightarrow> int" where
  "jsRemainder a b = sgn a * (\<bar>a\<bar> mod \<bar>b\<bar>)"

definition top_pct :: "OverlayDanmaku \<Rightarrow> int" where
  "top_pct d = jsRemainder (trackIndex d) 16 * 6"

definition progress :: "(real \<Rightarrow> real) \<Rightarrow> real \<Rightarrow> OverlayDanmaku \<Rightarrow> real" where
  "progress rnd smoothTime d =
     (let duration = actualDuration d;
          timeAlive = rnd (smoothTime - time d)
      in rnd (timeAlive / duration))"

definition currentX :: "(real \<Rightarrow> real) \<Rightarrow> real \<Rightarrow> OverlayDanmaku \<Rightarrow> real" where
  "currentX rnd smoothTime d =
     (let startX = 100;
          endX = - 100
      in rnd (startX - rnd (progress rnd smoothTime d * rnd (startX - endX))))"

definition fontSize :: "(real \<Rightarrow> real) \<Rightarrow> DanmakuSettings \<Rightarrow> real" where
  "fontSize rnd s = rnd (rnd 19.2 * size_s s)"

text \<open>
  \<^verbatim>\<open>Number.prototype.toString(16)\<close> on an integer: lowercase digits, no leading zero,
  a minus sign for a negative number; and \<^verbatim>\<open>String.prototype.padStart\<close> with a
  one-character filler.
\<close>

definition hexDigit :: "nat \<Rightarrow> char" where
  "hexDigit n = ''0123456789abcdef'' ! n"

fun toString16_nat :: "nat \<Rightarrow> string" where
  "toString16_nat n =
     (if n < 16 then [hexDigit n] else toString16_nat (n div 16) @ [hexDigit (n mod 16)])"

declare toString16_nat.simps [simp del]

definition toString16 :: "int \<Rightarrow> string" where
  "toString16 c =
     (if c < 0 then CHR ''-'' # toString16_nat (nat (- c)) else toString16_nat (nat c))"

definition padStart :: "nat \<Rightarrow> char \<Rightarrow> string \<Rightarrow> string" where
  "padStart n p str = replicate (n - length str) p @ str"

definition colorHex :: "OverlayDanmaku \<Rightarrow> string" where
  "colorHex d =
     (if color d = 16777215 then ''#ffffff''
      else CHR ''#'' # padStart 6 (CHR ''0'') (toString16 (color d)))"

text \<open>The element returned for one item: a sticker image or an outlined text.\<close>

datatype OverlayElement =
    StickerElement (el_top: int) (el_translateX: real) (el_opacity: real) (el_src: string)
  | TextElement (el_top: int) (el_translateX: real) (el_fontSize: real) (el_opacity: real)
      (el_color: string) (el_content: string)

definition renderOverlayItem ::
  "(real \<Rightarrow> real) \<Rightarrow> DanmakuSettings \<Rightarrow> real \<Rightarrow> OverlayDanmaku \<Rightarrow> OverlayElement" where
  "renderOverlayItem rnd s smoothTime d =
     (case stickerUrl d of
        Some url \<Rightarrow>
          if url \<noteq> [] then StickerElement (top_pct d) (currentX rnd smoothTime d) (opacity s) url
          else TextElement (top_pct d) (currentX rnd smoothTime d) (fontSize rnd s) (opacity s)
                 (colorHex d) (content d)
      | None \<Rightarrow>
          TextElement (top_pct d) (currentX rnd smoothTime d) (fontSize rnd s) (opacity s)
            (colorHex d) (content d))"

subsection \<open>The colour string as the specification words it\<close>




section \<open>Sessions and the state of the player component\<close>

record 'f StreamFile =
  originalFile :: 'f
  name :: string
  roomId :: string
  streamerName :: string
  dateStr :: string
  timeStr :: string
  timestamp_f :: int
  title :: string
  ext :: string

record 'f StreamSegment =
  file_seg :: "'f StreamFile"
  duration_seg :: "real option"
  danmakuFile :: "'f option"
  coverFile :: "'f option"
  danmakuCount :: "int option"

record 'f StreamSession =
  id_s :: string
  roomId_s :: string
  streamerName_s :: string
  title_s :: string
  startTime_s :: int
  endTime :: int
  segments :: "'f StreamSegment list"
  totalDuration :: real
  totalDanmakuCount :: int
  coverUrl :: "string option"

text \<open>
  A segment index at run time.  The cell \<^verbatim>\<open>currentSegmentIndex\<close> and the field
  \<^verbatim>\<open>segmentIndex\<close> of a stored record are numbers by their declared types, but the record
  comes out of \<^verbatim>\<open>JSON.parse\<close> unchecked: the field can be missing (\<^verbatim>\<open>undefined\<close>), be
  \<^verbatim>\<open>null\<close>, or be any number, a fraction included.  Strings, booleans and containers in
  that place are left out of the model.
\<close>

datatype JsValue = Undefined | Null | Num real

text \<open>
  \<^verbatim>\<open>ToNumber\<close>, with \<open>None\<close> for \<^verbatim>\<open>NaN\<close>; the comparisons \<^verbatim>\<open>v >= r\<close> and \<^verbatim>\<open>v < r\<close> with a
  number, false when either side is \<^verbatim>\<open>NaN\<close>; and the array read \<^verbatim>\<open>xs[v]\<close>, which is
  \<^verbatim>\<open>undefined\<close> (here \<open>None\<close>) unless \<open>v\<close> is a whole number inside the array.
\<close>

definition toNumber :: "JsValue \<Rightarrow> real option" where
  "toNumber v = (case v of Undefined \<Rightarrow> None | Null \<Rightarrow> Some 0 | Num r \<Rightarrow> Some r)"

definition jsGreaterEq :: "JsValue \<Rightarrow> real \<Rightarrow> bool" where
  "jsGreaterEq v r = (case toNumber v of Some x \<Rightarrow> r \<le> x | None \<Rightarrow> False)"

definition jsLess :: "JsValue \<Rightarrow> real \<Rightarrow> bool" where
  "jsLess v r = (case toNumber v of Some x \<Rightarrow> x < r | None \<Rightarrow> False)"

definition jsIndex :: "'a list \<Rightarrow> JsValue \<Rightarrow> 'a option" where
  "jsIndex xs v =
     (case v of
        Num r \<Rightarrow>
          if r = of_int \<lfloor>r\<rfloor> \<and> 0 \<le> r \<and> r < real (length xs) then Some (xs ! nat \<lfloor>r\<rfloor>)
          else None
      | _ \<Rightarrow> None)"

text \<open>
  The \<^verbatim>\<open>useState\<close> cells of \<^verbatim>\<open>Player\<close> and the ref \<^verbatim>\<open>initialSeekTimeRef\<close>
  (\<open>None\<close> is \<^verbatim>\<open>null\<close>).
\<close>

record PlayerState =
  isPlaying :: bool
  currentTime :: real
  smoothTime :: real
  duration :: real
  volume :: real
  isMuted :: bool
  isLongPressing :: bool
  currentSegmentIndex :: JsValue
  errorMsg :: "string option"
  isFullscreen :: bool
  danmakuData :: "DanmakuItem list"
  initialSeekTimeRef :: "real option"

text \<open>The state of a freshly mounted component: the initial values of its cells.\<close>

definition mountState :: PlayerState where
  "mountState =
     \<lparr>isPlaying = False, currentTime = 0, smoothTime = 0, duration = 0, volume = 1,
      isMuted = False, isLongPressing = False, currentSegmentIndex = Num 0, errorMsg = None,
      isFullscreen = False, danmakuData = [], initialSeekTimeRef = None\<rparr>"

section \<open>History store\<close>

text \<open>
  One record of the object kept under \<^verbatim>\<open>bili-player-history\<close>.  \<open>segmentIndex = Undefined\<close>
  is a record without that field; \<open>ts\<close> is the reading of \<^verbatim>\<open>Date.now()\<close> at the save.
\<close>

record HistoryRecord =
  time_h :: real
  segmentIndex :: JsValue
  ts :: int

text \<open>
  The value of \<^verbatim>\<open>localStorage.getItem(STORAGE_KEY_HISTORY)\<close>: nothing (or the empty
  string), a text that does not parse to an object (every use of it raises, and both
  callers catch), or the object, as the list of its entries in the order
  \<^verbatim>\<open>Object.keys\<close> enumerates them: for keys that are not array indices this is the order
  of insertion, and the session identifiers are taken to be such keys.
\<close>

datatype Storage = Absent | Malformed | Stored "(string \<times> HistoryRecord) list"

text \<open>\<^verbatim>\<open>history[k].ts\<close> for a key of the object.\<close>

definition tsOf :: "(string \<times> HistoryRecord) list \<Rightarrow> string \<Rightarrow> int" where
  "tsOf history k = (case map_of history k of Some r \<Rightarrow> ts r | None \<Rightarrow> 0)"

text \<open>
  \<^verbatim>\<open>saveHistory\<close>, with the identifier of the session of its closure and the clock
  reading \<open>now\<close> as parameters.  \<^verbatim>\<open>keys.sort((a, b) => history[b].ts - history[a].ts)\<close>
  is a stable sort by descending \<open>ts\<close>; \<^verbatim>\<open>forEach(k => delete history[k])\<close> is the fold.
\<close>

definition saveHistory :: "string \<Rightarrow> int \<Rightarrow> real \<Rightarrow> JsValue \<Rightarrow> Storage \<Rightarrow> Storage" where
  "saveHistory sessionId now t segmentIdx raw =
     (case raw of
        Malformed \<Rightarrow> Malformed
      | _ \<Rightarrow>
        (let history0 = (case raw of Stored h \<Rightarrow> h | _ \<Rightarrow> []);
             history = AList.update sessionId
                         \<lparr>time_h = t, segmentIndex = segmentIdx, ts = now\<rparr> history0;
             keys = map fst history
         in if length keys > 100
            then (let sortedKeys = sort_key (\<lambda>k. - tsOf history k) keys;
                      keysToRemove = drop 100 sortedKeys
                  in Stored (fold AList.delete keysToRemove history))
            else Stored history))"

text \<open>The records a storage value holds, and \<^verbatim>\<open>history[session.id]\<close>.\<close>

definition records :: "Storage \<Rightarrow> (string \<times> HistoryRecord) list" where
  "records raw = (case raw of Stored h \<Rightarrow> h | _ \<Rightarrow> [])"

definition loadRecord :: "Storage \<Rightarrow> string \<Rightarrow> HistoryRecord option" where
  "loadRecord raw sessionId = map_of (records raw) sessionId"

text \<open>A sequence of saves, each with its clock reading.\<close>

record SaveCall =
  sc_sessionId :: string
  sc_now :: int
  sc_time :: real
  sc_segmentIdx :: JsValue

definition saveAll :: "SaveCall list \<Rightarrow> Storage \<Rightarrow> Storage" where
  "saveAll calls raw =
     fold (\<lambda>c. saveHistory (sc_sessionId c) (sc_now c) (sc_time c) (sc_segmentIdx c)) calls raw"

text \<open>
  A storage value the component itself can have written: it parses, and the keys of the
  object are pairwise different.
\<close>

definition wellFormed :: "Storage \<Rightarrow> bool" where
  "wellFormed raw \<longleftrightarrow> raw \<noteq> Malformed \<and> distinct (map fst (records raw))"

text \<open>The entry a save call writes, and the stored records of other sessions that are
  not older than a clock reading.\<close>

definition entryOf :: "SaveCall \<Rightarrow> string \<times> HistoryRecord" where
  "entryOf c =
     (sc_sessionId c,
      \<lparr>time_h = sc_time c, segmentIndex = sc_segmentIdx c, ts = sc_now c\<rparr>)"

definition notOlder :: "string \<Rightarrow> int \<Rightarrow> Storage \<Rightarrow> (string \<times> HistoryRecord) list" where
  "notOlder sessionId now raw =
     filter (\<lambda>e. fst e \<noteq> sessionId \<and> now \<le> ts (snd e)) (records raw)"

text \<open>The cleanup step of \<^verbatim>\<open>saveHistory\<close> on its own, an auxiliary for the proofs.\<close>

definition evict :: "(string \<times> HistoryRecord) list \<Rightarrow> (string \<times> HistoryRecord) list" where
  "evict history =
     (if length history > 100
      then filter (\<lambda>e. fst e \<notin> set (drop 100 (sort_key (\<lambda>k. - tsOf history k) (map fst history))))
             history
      else history)"

section \<open>Effects and event handlers of the player\<close>

text \<open>
  \<^verbatim>\<open>const currentSegment = session.segments[currentSegmentIndex]\<close>: an index that is not
  a position of the array reads \<^verbatim>\<open>undefined\<close>, here \<open>None\<close>, and the render then throws at
  \<^verbatim>\<open>currentSegment.danmakuFile\<close>.
\<close>

definition currentSegment :: "'f StreamSession \<Rightarrow> PlayerState \<Rightarrow> 'f StreamSegment option" where
  "currentSegment session st = jsIndex (segments session) (currentSegmentIndex st)"

text \<open>
  The effect "History: Load on mount", run when \<^verbatim>\<open>session.id\<close> changes.  An exception
  of \<^verbatim>\<open>JSON.parse\<close> is caught and leaves the state as it is.
\<close>

definition loadHistoryEffect :: "Storage \<Rightarrow> 'f StreamSession \<Rightarrow> PlayerState \<Rightarrow> PlayerState" where
  "loadHistoryEffect raw session st =
     (case raw of
        Absent \<Rightarrow> st
      | Malformed \<Rightarrow> st
      | Stored history \<Rightarrow>
          (case map_of history (id_s session) of
             None \<Rightarrow> st
           | Some record \<Rightarrow>
               if time_h record > 5 \<and> segmentIndex record \<noteq> Undefined then
                 (if jsGreaterEq (segmentIndex record) 0
                     \<and> jsLess (segmentIndex record) (real (length (segments session)))
                  then st\<lparr>currentSegmentIndex := segmentIndex record,
                          initialSeekTimeRef := Some (time_h record)\<rparr>
                  else st)
               else st))"

text \<open>
  The synchronous head of the effect "Initialize Player": the error is cleared, playing is
  off, and both clocks start at \<^verbatim>\<open>startTime\<close>.
\<close>

definition startTime :: "PlayerState \<Rightarrow> real" where
  "startTime st = (case initialSeekTimeRef st of Some t \<Rightarrow> t | None \<Rightarrow> 0)"

definition initializePlayer :: "PlayerState \<Rightarrow> PlayerState" where
  "initializePlayer st =
     st\<lparr>errorMsg := None, isPlaying := False,
        currentTime := startTime st, smoothTime := startTime st\<rparr>"

text \<open>\<^verbatim>\<open>onPlayerReady\<close>: the position of the video element and the ref.\<close>

definition onPlayerReady :: "real \<times> PlayerState \<Rightarrow> real \<times> PlayerState" where
  "onPlayerReady v =
     (case initialSeekTimeRef (snd v) of
        Some t \<Rightarrow> (t, (snd v)\<lparr>initialSeekTimeRef := None\<rparr>)
      | None \<Rightarrow> v)"

text \<open>
  \<^verbatim>\<open>handleTimeUpdate\<close> is created by the effect "Initialize Player", whose dependencies are
  the segment, its index and the number of segments.  The handler therefore reads the
  \<^verbatim>\<open>smoothTime\<close> and \<^verbatim>\<open>currentSegmentIndex\<close> of the render that ran the effect: they are
  the fields of its closure, not the cells of the current state.
\<close>

record TimeUpdateClosure =
  cl_smoothTime :: real
  cl_currentSegmentIndex :: JsValue
  cl_sessionId :: string

definition handleTimeUpdate ::
  "TimeUpdateClosure \<Rightarrow> int \<Rightarrow> real \<Rightarrow> PlayerState \<times> Storage \<Rightarrow> PlayerState \<times> Storage" where
  "handleTimeUpdate cl now videoCurrentTime p =
     (let st1 = (fst p)\<lparr>currentTime := videoCurrentTime\<rparr>;
          st2 = (if \<bar>videoCurrentTime - cl_smoothTime cl\<bar> > 0.5
                 then st1\<lparr>smoothTime := videoCurrentTime\<rparr> else st1);
          raw = (if \<lfloor>videoCurrentTime\<rfloor> mod 5 = 0
                 then saveHistory (cl_sessionId cl) now videoCurrentTime
                        (cl_currentSegmentIndex cl) (snd p)
                 else snd p)
      in (st2, raw))"

text \<open>The closure the effect builds when it runs in a render with state \<open>st\<close>.\<close>

definition closureOf :: "'f StreamSession \<Rightarrow> PlayerState \<Rightarrow> TimeUpdateClosure" where
  "closureOf session st =
     \<lparr>cl_smoothTime = smoothTime st, cl_currentSegmentIndex = currentSegmentIndex st,
      cl_sessionId = id_s session\<rparr>"

text \<open>
  One tick of \<^verbatim>\<open>updateSmoothTime\<close> (the animation-frame loop): while the video is not
  paused the smoothed clock takes the position of the video element.
\<close>

definition updateSmoothTime :: "bool \<Rightarrow> real \<Rightarrow> PlayerState \<Rightarrow> PlayerState" where
  "updateSmoothTime paused videoCurrentTime st =
     (if \<not> paused then st\<lparr>smoothTime := videoCurrentTime\<rparr> else st)"

text \<open>
  The effect "Load XML" calls the asynchronous \<^verbatim>\<open>loadDanmaku\<close> whenever the current segment
  changes, with no cleanup and no check, when the parse settles, that the segment is still
  the current one.  A call is therefore two steps.  \<open>loadDanmaku\<close> is the part that runs at
  once: without a comment log the comments are emptied, with one the parse is started and
  the call waits.  \<open>loadDanmakuSettled\<close> is the rest of a waiting call, run when its parse
  has settled, on whatever the state is by then: the items if the promise was fulfilled,
  the empty list if it was rejected.  The second component of the pair holds the files of
  the calls that wait.  The parser \<^verbatim>\<open>parseDanmakuXml\<close> lives in \<^verbatim>\<open>utils/parser\<close>; it is a
  parameter, returning the items or the reason of the rejection.
\<close>

definition loadDanmaku ::
  "'f StreamSegment \<Rightarrow> PlayerState \<times> 'f list \<Rightarrow> PlayerState \<times> 'f list" where
  "loadDanmaku segment p =
     (case danmakuFile segment of
        Some f \<Rightarrow> (fst p, snd p @ [f])
      | None \<Rightarrow> ((fst p)\<lparr>danmakuData := []\<rparr>, snd p))"

definition loadDanmakuSettled ::
  "('f \<Rightarrow> 'e + DanmakuItem list) \<Rightarrow> 'f \<Rightarrow> PlayerState \<times> 'f list \<Rightarrow> PlayerState \<times> 'f list" where
  "loadDanmakuSettled parseDanmakuXml f p =
     (if f \<notin> set (snd p) then p
      else (case parseDanmakuXml f of
              Inr items \<Rightarrow> ((fst p)\<lparr>danmakuData := items\<rparr>, remove1 f (snd p))
            | Inl e \<Rightarrow> ((fst p)\<lparr>danmakuData := []\<rparr>, remove1 f (snd p))))"

text \<open>
  A button of the segment list: \<^verbatim>\<open>setCurrentSegmentIndex(idx)\<close>, and the run of the effect
  "Load XML" in the render that follows when the segment has changed.  The buttons are
  made from the segments, so \<open>idx\<close> is a position of the array.
\<close>

definition selectSegment ::
  "'f StreamSession \<Rightarrow> nat \<Rightarrow> PlayerState \<times> 'f list \<Rightarrow> PlayerState \<times> 'f list" where
  "selectSegment session idx p =
     (if currentSegmentIndex (fst p) = Num (real idx) then p
      else (let st = (fst p)\<lparr>currentSegmentIndex := Num (real idx)\<rparr>
            in case currentSegment session st of
                 Some segment \<Rightarrow> loadDanmaku segment (st, snd p)
               | None \<Rightarrow> (st, snd p)))"

section \<open>Sample values\<close>

text \<open>The default settings object of the component, and a plain white text item.\<close>

definition defaultSettings :: DanmakuSettings where
  "defaultSettings =
     \<lparr>show_s = True, opacity = 1, size_s = 1.0, speed = 1.0, playbackRate = 1.0,
      longPressRate = 2.0\<rparr>"

definition textItem :: "real \<Rightarrow> string \<Rightarrow> DanmakuItem" where
  "textItem t c =
     \<lparr>time = t, type_d = 1, size_d = 25, color = 16777215, timestamp = 0, pool = 0,
      uid = ''1'', rowId = ''1'', content = c, senderName = None, medalName = None,
      medalLevel = None, medalColorBorder = None, trackIndex = 0, emots = None,
      stickerUrl = None\<rparr>"

text \<open>
  A comment of ten characters whose time is the double \<^verbatim>\<open>1024 - 16 / 0.75\<close>, the lower end of
  the window at time 1024 and speed 1.
\<close>

definition boundaryItem :: DanmakuItem where
  "boundaryItem = textItem (8819549270267221 / 2 ^ 43) ''aaaaaaaaaa''"

text \<open>
  Save calls of pairwise different sessions: call \<open>i\<close> is made at clock reading \<open>i\<close>.
  \<open>fullStore\<close> is the store after the calls 1 to 100.
\<close>

definition sessionName :: "nat \<Rightarrow> string" where
  "sessionName i = replicate (Suc i) (CHR ''s'')"

definition sampleCall :: "nat \<Rightarrow> SaveCall" where
  "sampleCall i =
     \<lparr>sc_sessionId = sessionName i, sc_now = int i, sc_time = 60, sc_segmentIdx = Num 0\<rparr>"

definition fullStore :: Storage where
  "fullStore = Stored (map (\<lambda>i. entryOf (sampleCall i)) [1..<101])"

text \<open>
  A session of two segments, the first with a comment log, whose files are named by
  strings; and a store holding one record for it.
\<close>

definition sampleSegment :: "string \<Rightarrow> string option \<Rightarrow> string StreamSegment" where
  "sampleSegment n xml =
     \<lparr>file_seg = \<lparr>originalFile = n, name = n, roomId = ''1'', streamerName = ''up'',
                  dateStr = ''20240101'', timeStr = ''200000'', timestamp_f = 0,
                  title = ''live'', ext = ''flv''\<rparr>,
      duration_seg = None, danmakuFile = xml, coverFile = None, danmakuCount = None\<rparr>"

definition sampleSession :: "string StreamSession" where
  "sampleSession =
     \<lparr>id_s = ''1-0'', roomId_s = ''1'', streamerName_s = ''up'', title_s = ''live'',
      startTime_s = 0, endTime = 0,
      segments = [sampleSegment ''a.flv'' (Some ''a.xml''), sampleSegment ''b.flv'' None],
      totalDuration = 0, totalDanmakuCount = 0, coverUrl = None\<rparr>"

definition sampleHistory :: "real \<Rightarrow> JsValue \<Rightarrow> Storage" where
  "sampleHistory t i = Stored [(''1-0'', \<lparr>time_h = t, segmentIndex = i, ts = 1\<rparr>)]"

text \<open>
  A second session, both of whose segments have a comment log, and a parser that reads
  \<open>a.xml\<close> and \<open>c.xml\<close> and fails on every other file.
\<close>

definition loggedSession :: "string StreamSession" where
  "loggedSession =
     \<lparr>id_s = ''1-1'', roomId_s = ''1'', streamerName_s = ''up'', title_s = ''live'',
      startTime_s = 0, endTime = 0,
      segments = [sampleSegment ''x.flv'' (Some ''x.xml''), sampleSegment ''c.flv'' (Some ''c.xml'')],
      totalDuration = 0, totalDanmakuCount = 0, coverUrl = None\<rparr>"

definition sampleParser :: "string \<Rightarrow> string + DanmakuItem list" where
  "sampleParser f =
     (if f = ''a.xml'' then Inr [textItem 1 ''a'']
      else if f = ''c.xml'' then Inr [textItem 2 ''c'']
      else Inl ''unreadable'')"

section \<open>The duration model\<close>

lemma actualDuration_withActualDuration:
  "actualDuration (withActualDuration s d) =
     spec_duration (speed s) (spec_length (content d))"
  by (simp add: withActualDuration_def Let_def DanmakuItem.defs OverlayDanmaku.defs
      spec_duration_def spec_length_def spec_intrinsicFactor_def clamp_def BASE_DURATION_def
      min_def max_def)

lemma time_withActualDuration: "time (withActualDuration s d) = time d"
  by (simp add: withActualDuration_def Let_def DanmakuItem.defs OverlayDanmaku.defs)

lemma content_withActualDuration: "content (withActualDuration s d) = content d"
  by (simp add: withActualDuration_def Let_def DanmakuItem.defs OverlayDanmaku.defs)

lemma spec_intrinsicFactor_bounds:
  "3 / 4 \<le> spec_intrinsicFactor len \<and> spec_intrinsicFactor len \<le> 1"
  by (simp add: spec_intrinsicFactor_def clamp_def)


lemma spec_duration_pos:
  assumes "0 < spd"
  shows "0 < spec_duration spd len"
proof -
  have "0 < spec_intrinsicFactor len" using spec_intrinsicFactor_bounds[of len] by linarith
  then show ?thesis using assms by (simp add: spec_duration_def)
qed






lemma secondPass_text:
  "secondPass cur (withActualDuration defaultSettings (textItem t c)) \<longleftrightarrow>
     cur - spec_duration 1 (spec_length c) \<le> t \<and> t \<le> cur + 0.5"
  by (simp add: secondPass_def actualDuration_withActualDuration time_withActualDuration
      textItem_def defaultSettings_def)

lemma spec_duration_a: "spec_duration 1 (spec_length ''a'') = 16"
  by (simp add: spec_duration_def spec_length_def spec_intrinsicFactor_def clamp_def)






text \<open>
  C2.  The duration of an item is \<open>16 / (speed * intrinsicFactor)\<close> with
  \<open>intrinsicFactor = 1 - ((clamp(len, 1, 10) - 1) / 9) * 0.25\<close>, an empty content counting
  as length 1; the factor is 1 at length 1 and 0.75 at lengths 10 and 20; at length 1 the
  duration is 16 at speed 1 and 8 at speed 2.
\<close>

theorem duration_model:
  "actualDuration (withActualDuration s d) =
      16 / (speed s * spec_intrinsicFactor (spec_length (content d)))
   \<and> spec_length [] = 1
   \<and> spec_intrinsicFactor 1 = 1 \<and> spec_intrinsicFactor 10 = 0.75 \<and> spec_intrinsicFactor 20 = 0.75
   \<and> actualDuration (withActualDuration (s\<lparr>speed := 1\<rparr>) (d\<lparr>content := ''a''\<rparr>)) = 16
   \<and> actualDuration (withActualDuration (s\<lparr>speed := 2\<rparr>) (d\<lparr>content := ''a''\<rparr>)) = 8
   \<and> actualDuration (withActualDuration (s\<lparr>speed := 1\<rparr>) (d\<lparr>content := []\<rparr>)) = 16
   \<and> actualDuration (withActualDuration (s\<lparr>speed := 1\<rparr>) (d\<lparr>content := ''0123456789''\<rparr>))
        = 16 / 0.75
   \<and> actualDuration
         (withActualDuration (s\<lparr>speed := 1\<rparr>) (d\<lparr>content := ''01234567890123456789''\<rparr>))
        = 16 / 0.75"
  by (simp add: actualDuration_withActualDuration spec_duration_def spec_length_def
      spec_intrinsicFactor_def clamp_def)


section \<open>Progress and horizontal position\<close>

text \<open>
  The render computes \<open>progress\<close> and \<open>currentX\<close> in doubles, from a visible set that the
  scheduler selected in doubles.  The bounds below hold for every rounding function that
  satisfies \<open>binary64_rounding\<close>: for \<open>round_binary64\<close>, the rounding of the doubles, and
  for \<open>exact\<close>.
\<close>

subsection \<open>Rounding\<close>

lemma underflowUnit_bounds: "0 \<le> underflowUnit" "underflowUnit \<le> 1 / 2 ^ 60"
proof -
  show "0 \<le> underflowUnit" by (simp add: underflowUnit_def)
  have "((1::real) / 2) ^ 1075 \<le> (1 / 2) ^ 60"
    by (rule power_decreasing) simp_all
  then show "underflowUnit \<le> 1 / 2 ^ 60" by (simp add: underflowUnit_def power_one_over)
qed

lemma overflowThreshold_large: "2 ^ 30 \<le> overflowThreshold"
  unfolding overflowThreshold_def by (rule power_increasing) simp_all

lemma binary64_rounding_exact: "binary64_rounding exact"
  using underflowUnit_bounds(1) by (simp add: binary64_rounding_def exact_def)

subsection \<open>Rounding to nearest satisfies the three properties\<close>

lemma roundEven_of_int: "roundEven (of_int k) = k"
  by (simp add: roundEven_def)

lemma roundEven_zero: "roundEven 0 = 0"
  by (simp add: roundEven_def)

lemma roundEven_error: "\<bar>real_of_int (roundEven z) - z\<bar> \<le> 1 / 2"
proof -
  have "real_of_int \<lfloor>z\<rfloor> \<le> z" "z < real_of_int \<lfloor>z\<rfloor> + 1" by linarith+
  then show ?thesis by (auto simp: roundEven_def Let_def)
qed

lemma roundEven_range: "\<lfloor>z\<rfloor> \<le> roundEven z" "roundEven z \<le> \<lfloor>z\<rfloor> + 1"
  by (simp_all add: roundEven_def Let_def)

lemma roundEven_mono:
  assumes "z \<le> w"
  shows "roundEven z \<le> roundEven w"
proof (cases "\<lfloor>z\<rfloor> = \<lfloor>w\<rfloor>")
  case True
  then show ?thesis using assms by (auto simp: roundEven_def Let_def)
next
  case False
  then have "\<lfloor>z\<rfloor> + 1 \<le> \<lfloor>w\<rfloor>" using floor_mono[OF assms] by linarith
  then show ?thesis using roundEven_range(2)[of z] roundEven_range(1)[of w] by linarith
qed

lemma pow2_mono: "a \<le> b \<Longrightarrow> (2::real) powr real_of_int a \<le> 2 powr real_of_int b"
  by (simp add: powr_mono)

lemma pow2_neg: "(2::real) powr (- real n) = (1 / 2) ^ n"
  by (simp add: powr_minus powr_realpow power_one_over inverse_eq_divide)

lemma exponent_lower: "- 1022 \<le> exponent x"
  by (simp add: exponent_def)

lemma exponent_upper:
  assumes "x \<noteq> 0"
  shows "\<bar>x\<bar> < 2 powr real_of_int (exponent x + 1)"
proof -
  have "\<bar>x\<bar> < 2 powr real_of_int (\<lfloor>log 2 \<bar>x\<bar>\<rfloor> + 1)"
    using floor_log_eq_powr_iff[of "\<bar>x\<bar>" 2 "\<lfloor>log 2 \<bar>x\<bar>\<rfloor>"] assms by simp
  also have "\<dots> \<le> 2 powr real_of_int (exponent x + 1)"
    by (intro pow2_mono) (simp add: exponent_def)
  finally show ?thesis .
qed

lemma exponent_normal:
  assumes "x \<noteq> 0" and "- 1022 < exponent x"
  shows "2 powr real_of_int (exponent x) \<le> \<bar>x\<bar>"
proof -
  have "exponent x = \<lfloor>log 2 \<bar>x\<bar>\<rfloor>" using assms(2) by (simp add: exponent_def max_def split: if_splits)
  then show ?thesis
    using floor_log_eq_powr_iff[of "\<bar>x\<bar>" 2 "\<lfloor>log 2 \<bar>x\<bar>\<rfloor>"] assms(1) by simp
qed

lemma exponent_mono:
  assumes "x \<noteq> 0" and "\<bar>x\<bar> \<le> \<bar>y\<bar>"
  shows "exponent x \<le> exponent y"
proof -
  have "log 2 \<bar>x\<bar> \<le> log 2 \<bar>y\<bar>" using assms by simp
  then have "\<lfloor>log 2 \<bar>x\<bar>\<rfloor> \<le> \<lfloor>log 2 \<bar>y\<bar>\<rfloor>" by (rule floor_mono)
  then show ?thesis by (simp add: exponent_def)
qed

lemma ulp_pos: "0 < ulp x"
  by (simp add: ulp_def)

lemma ulp_scale:
  "2 powr real_of_int (exponent x + 1) = 2 ^ 53 * ulp x"
  "2 powr real_of_int (exponent x) = 2 ^ 52 * ulp x"
proof -
  have a: "real_of_int (exponent x + 1) = 53 + real_of_int (exponent x - 52)"
    "real_of_int (exponent x) = 52 + real_of_int (exponent x - 52)" by simp_all
  have b: "(2::real) powr 53 = 2 ^ 53" "(2::real) powr 52 = 2 ^ 52" by simp_all
  show "2 powr real_of_int (exponent x + 1) = 2 ^ 53 * ulp x"
    by (simp only: a(1) powr_add ulp_def b)
  have "2 powr real_of_int (exponent x) = 2 powr (52 + real_of_int (exponent x - 52))"
    using a(2) by simp
  then show "2 powr real_of_int (exponent x) = 2 ^ 52 * ulp x"
    by (simp only: powr_add ulp_def b)
qed

lemma round_binary64_magnitude: "round_binary64 x = (if x = 0 then 0 else sgn x * magnitude x)"
  by (simp add: round_binary64_def)

lemma magnitude_nonneg: "0 \<le> magnitude x"
proof -
  have "roundEven 0 \<le> roundEven (\<bar>x\<bar> / ulp x)"
    using ulp_pos[of x] by (intro roundEven_mono) simp
  then have "0 \<le> roundEven (\<bar>x\<bar> / ulp x)" by (simp only: roundEven_zero)
  then show ?thesis using ulp_pos[of x] by (simp add: magnitude_def)
qed

lemma magnitude_error: "\<bar>magnitude x - \<bar>x\<bar>\<bar> \<le> ulp x / 2"
proof -
  have "magnitude x - \<bar>x\<bar> = (real_of_int (roundEven (\<bar>x\<bar> / ulp x)) - \<bar>x\<bar> / ulp x) * ulp x"
    using ulp_pos[of x] by (simp add: magnitude_def algebra_simps)
  then have "\<bar>magnitude x - \<bar>x\<bar>\<bar> = \<bar>real_of_int (roundEven (\<bar>x\<bar> / ulp x)) - \<bar>x\<bar> / ulp x\<bar> * ulp x"
    using ulp_pos[of x] by (simp add: abs_mult)
  also have "\<dots> \<le> 1 / 2 * ulp x"
    using roundEven_error[of "\<bar>x\<bar> / ulp x"] ulp_pos[of x] by (intro mult_right_mono) simp_all
  finally show ?thesis by simp
qed

lemma magnitude_upper:
  assumes "x \<noteq> 0"
  shows "magnitude x \<le> 2 powr real_of_int (exponent x + 1)"
proof -
  have "\<bar>x\<bar> < 2 ^ 53 * ulp x"
    using exponent_upper[OF assms] by (simp only: ulp_scale)
  then have "\<bar>x\<bar> / ulp x \<le> 2 ^ 53"
    using ulp_pos[of x] by (simp add: divide_le_eq)
  then have "\<bar>x\<bar> / ulp x \<le> real_of_int (2 ^ 53)" by simp
  from roundEven_mono[OF this] have "roundEven (\<bar>x\<bar> / ulp x) \<le> 2 ^ 53"
    unfolding roundEven_of_int .
  then have "real_of_int (roundEven (\<bar>x\<bar> / ulp x)) \<le> real_of_int (2 ^ 53)"
    by (simp only: of_int_le_iff)
  then have "real_of_int (roundEven (\<bar>x\<bar> / ulp x)) \<le> 2 ^ 53" by simp
  then have "magnitude x \<le> 2 ^ 53 * ulp x"
    unfolding magnitude_def using ulp_pos[of x] by (intro mult_right_mono) simp_all
  then show ?thesis by (simp only: ulp_scale)
qed

lemma magnitude_lower:
  assumes "x \<noteq> 0" and "- 1022 < exponent x"
  shows "2 powr real_of_int (exponent x) \<le> magnitude x"
proof -
  have "2 ^ 52 * ulp x \<le> \<bar>x\<bar>"
    using exponent_normal[OF assms] by (simp only: ulp_scale)
  then have "2 ^ 52 \<le> \<bar>x\<bar> / ulp x"
    using ulp_pos[of x] by (simp add: le_divide_eq)
  then have "real_of_int (2 ^ 52) \<le> \<bar>x\<bar> / ulp x" by simp
  from roundEven_mono[OF this] have "2 ^ 52 \<le> roundEven (\<bar>x\<bar> / ulp x)"
    unfolding roundEven_of_int .
  then have "real_of_int (2 ^ 52) \<le> real_of_int (roundEven (\<bar>x\<bar> / ulp x))"
    by (simp only: of_int_le_iff)
  then have "2 ^ 52 \<le> real_of_int (roundEven (\<bar>x\<bar> / ulp x))" by simp
  then have "2 ^ 52 * ulp x \<le> magnitude x"
    unfolding magnitude_def using ulp_pos[of x] by (intro mult_right_mono) simp_all
  then show ?thesis by (simp only: ulp_scale)
qed

lemma magnitude_mono:
  assumes "x \<noteq> 0" and "\<bar>x\<bar> \<le> \<bar>y\<bar>"
  shows "magnitude x \<le> magnitude y"
proof -
  have y: "y \<noteq> 0" using assms by auto
  note e = exponent_mono[OF assms]
  show ?thesis
  proof (cases "exponent x = exponent y")
    case True
    then have u: "ulp x = ulp y" by (simp add: ulp_def)
    have "\<bar>x\<bar> / ulp y \<le> \<bar>y\<bar> / ulp y"
      using assms(2) ulp_pos[of y] by (intro divide_right_mono) simp_all
    from roundEven_mono[OF this]
    have "real_of_int (roundEven (\<bar>x\<bar> / ulp y)) \<le> real_of_int (roundEven (\<bar>y\<bar> / ulp y))" by simp
    then show ?thesis
      unfolding magnitude_def u using ulp_pos[of y] by (intro mult_right_mono) simp_all
  next
    case False
    then have lt: "exponent x + 1 \<le> exponent y" using e by simp
    then have n: "- 1022 < exponent y" using exponent_lower[of x] by linarith
    have "magnitude x \<le> 2 powr real_of_int (exponent x + 1)" by (rule magnitude_upper[OF assms(1)])
    also have "\<dots> \<le> 2 powr real_of_int (exponent y)" by (rule pow2_mono[OF lt])
    also have "\<dots> \<le> magnitude y" by (rule magnitude_lower[OF y n])
    finally show ?thesis .
  qed
qed

lemma round_binary64_mono:
  assumes "x \<le> y"
  shows "round_binary64 x \<le> round_binary64 y"
proof -
  consider "y < 0" | "x < 0" "0 \<le> y" | "x = 0" | "0 < x" using assms by linarith
  then show ?thesis
  proof cases
    case 1
    then have "\<bar>y\<bar> \<le> \<bar>x\<bar>" "y \<noteq> 0" "x < 0" using assms by simp_all
    then show ?thesis
      using magnitude_mono[of y x] 1 by (simp add: round_binary64_magnitude)
  next
    case 2
    then show ?thesis
      using magnitude_nonneg[of x] magnitude_nonneg[of y]
      by (cases "y = 0") (simp_all add: round_binary64_magnitude)
  next
    case 3
    then show ?thesis
      using assms magnitude_nonneg[of y] by (cases "y = 0") (simp_all add: round_binary64_magnitude)
  next
    case 4
    then have "\<bar>x\<bar> \<le> \<bar>y\<bar>" "x \<noteq> 0" "0 < y" using assms by simp_all
    then show ?thesis
      using magnitude_mono[of x y] 4 by (simp add: round_binary64_magnitude)
  qed
qed

lemma round_binary64_error: "\<bar>round_binary64 x - x\<bar> \<le> \<bar>x\<bar> / 2 ^ 53 + underflowUnit"
proof (cases "x = 0")
  case True
  then show ?thesis by (simp add: round_binary64_def underflowUnit_def)
next
  case False
  have "round_binary64 x - x = sgn x * (magnitude x - \<bar>x\<bar>)"
    using False by (simp add: round_binary64_magnitude algebra_simps sgn_real_def)
  then have "\<bar>round_binary64 x - x\<bar> = \<bar>magnitude x - \<bar>x\<bar>\<bar>"
    using False by (simp add: abs_mult sgn_real_def)
  also have "\<dots> \<le> ulp x / 2" by (rule magnitude_error)
  also have "\<dots> \<le> \<bar>x\<bar> / 2 ^ 53 + underflowUnit"
  proof (cases "exponent x = - 1022")
    case True
    have "real_of_int (exponent x - 52) = - real 1074" unfolding True by simp
    then have "ulp x = (1 / 2) ^ 1074"
      unfolding ulp_def by (simp only: pow2_neg)
    moreover have "underflowUnit = (1 / 2) ^ 1074 * (1 / 2)"
      unfolding underflowUnit_def using power_add[of "1 / 2 :: real" 1074 1] by simp
    ultimately have "ulp x / 2 = underflowUnit" by simp
    moreover have "0 \<le> \<bar>x\<bar> / 2 ^ 53" by simp
    ultimately show ?thesis by linarith
  next
    case False
    then have "- 1022 < exponent x" using exponent_lower[of x] by linarith
    from exponent_normal[OF \<open>x \<noteq> 0\<close> this] have "2 ^ 52 * ulp x \<le> \<bar>x\<bar>" by (simp only: ulp_scale)
    then have "ulp x / 2 \<le> \<bar>x\<bar> / 2 ^ 53" by simp
    moreover have "0 \<le> underflowUnit" by (simp add: underflowUnit_def)
    ultimately show ?thesis by linarith
  qed
  finally show ?thesis .
qed

lemma round_binary64_exact:
  assumes "\<bar>n\<bar> \<le> 2 ^ 30"
  shows "round_binary64 (real_of_int n / 1024) = real_of_int n / 1024"
proof (cases "n = 0")
  case True
  then show ?thesis by (simp add: round_binary64_def)
next
  case False
  define x where "x = real_of_int n / 1024"
  have x0: "x \<noteq> 0" using False by (simp add: x_def)
  have ax: "\<bar>x\<bar> = real_of_int \<bar>n\<bar> / 2 ^ 10" by (simp add: x_def)
  have "real_of_int \<bar>n\<bar> \<le> 2 ^ 30" using assms by (metis of_int_le_iff of_int_numeral of_int_power)
  then have "\<bar>x\<bar> \<le> 2 ^ 20" by (simp add: ax)
  then have lt: "\<bar>x\<bar> < 2 powr real_of_int 21" by simp
  have e: "exponent x \<le> 20"
  proof (rule ccontr)
    assume "\<not> exponent x \<le> 20"
    then have g: "21 \<le> exponent x" by simp
    then have "- 1022 < exponent x" by simp
    from exponent_normal[OF x0 this] pow2_mono[OF g] lt show False by linarith
  qed
  define k where "k = nat (42 - exponent x)"
  have k: "real_of_int (42 - exponent x) = real k" using e by (simp add: k_def)
  have "real_of_int (exponent x - 52) + real_of_int (52 - exponent x) = 0" by simp
  then have "2 powr (real_of_int (exponent x - 52) + real_of_int (52 - exponent x)) = (1::real)"
    by (simp only: powr_zero_eq_one) simp
  then have u: "ulp x * 2 powr real_of_int (52 - exponent x) = 1"
    unfolding ulp_def by (simp only: powr_add)
  have "2 powr real_of_int (52 - exponent x) = 2 powr (10 + real_of_int (42 - exponent x))" by simp
  also have "\<dots> = 2 ^ 10 * 2 ^ k" unfolding powr_add k by (simp add: powr_realpow)
  finally have p: "2 powr real_of_int (52 - exponent x) = 2 ^ 10 * 2 ^ k" .
  have "\<bar>x\<bar> / ulp x = \<bar>x\<bar> * 2 powr real_of_int (52 - exponent x)"
    using u ulp_pos[of x] by (simp add: field_simps)
  also have "\<dots> = real_of_int (\<bar>n\<bar> * 2 ^ k)" unfolding p by (simp add: ax)
  finally have "roundEven (\<bar>x\<bar> / ulp x) = \<bar>n\<bar> * 2 ^ k" by (simp only: roundEven_of_int)
  then have "magnitude x = real_of_int (\<bar>n\<bar> * 2 ^ k) * ulp x" by (simp add: magnitude_def)
  also have "\<dots> = \<bar>x\<bar> * (ulp x * 2 powr real_of_int (52 - exponent x))"
    unfolding p by (simp add: ax)
  finally have "magnitude x = \<bar>x\<bar>" unfolding u by simp
  then have "round_binary64 x = x" using x0 by (simp add: round_binary64_magnitude sgn_real_def)
  then show ?thesis by (simp add: x_def)
qed

lemma binary64_rounding_round_binary64: "binary64_rounding round_binary64"
  unfolding binary64_rounding_def
  using round_binary64_mono round_binary64_exact round_binary64_error by blast

subsection \<open>Values of the rounding to nearest\<close>

text \<open>
  A number of a binade from \<open>2 ^ k\<close> on, \<open>k\<close> at most 52, is rounded to a multiple of
  \<open>1 / 2 ^ (52 - k)\<close>.  The values below are what a double computation returns:
  \<^verbatim>\<open>16 / 0.75\<close> is 21.333333333333332, and \<^verbatim>\<open>1024 - 16 / 0.75\<close> is 1002.6666666666666.
\<close>

lemma round_binary64_eval:
  assumes "k \<le> 52" and "2 ^ k \<le> x" and "x < 2 ^ (k + 1)"
    and "roundEven (x * 2 ^ (52 - k)) = m"
  shows "round_binary64 x = real_of_int m / 2 ^ (52 - k)"
proof -
  have x: "0 < x" using assms(2) zero_less_power[of "2::real" k] by linarith
  have a: "2 powr real_of_int (int k) = (2::real) ^ k"
    "2 powr real_of_int (int k + 1) = (2::real) ^ (k + 1)"
    using powr_realpow[of "2::real" k] powr_realpow[of "2::real" "k + 1"] by (simp_all add: add.commute)
  have "\<lfloor>log 2 \<bar>x\<bar>\<rfloor> = int k"
    using floor_log_eq_powr_iff[of x 2 "int k"] assms(2,3) x unfolding a by simp
  then have "exponent x = int k" by (simp add: exponent_def)
  moreover have "real_of_int (int k - 52) = - real (52 - k)" using assms(1) by simp
  ultimately have u: "ulp x = (1 / 2) ^ (52 - k)"
    unfolding ulp_def by (simp only: pow2_neg)
  have "\<bar>x\<bar> / ulp x = x * 2 ^ (52 - k)"
    using x unfolding u by (simp add: power_one_over)
  then have "magnitude x = real_of_int m * (1 / 2) ^ (52 - k)"
    unfolding magnitude_def using assms(4) u by simp
  then show ?thesis using x by (simp add: round_binary64_def power_one_over)
qed

lemma round_binary64_minus: "round_binary64 (- x) = - round_binary64 x"
  by (simp add: round_binary64_def magnitude_def ulp_def exponent_def sgn_real_def)

lemma double_values:
  "round_binary64 (64 / 3) = 6004799503160661 / 2 ^ 48"
  "round_binary64 (1024 - 6004799503160661 / 2 ^ 48) = 8819549270267221 / 2 ^ 43"
  "round_binary64 (1024 - 8819549270267221 / 2 ^ 43) = 187649984473771 / 2 ^ 43"
  "round_binary64 ((187649984473771 / 2 ^ 43) / (6004799503160661 / 2 ^ 48)) = 1 + 1 / 2 ^ 49"
proof -
  show "round_binary64 (64 / 3) = 6004799503160661 / 2 ^ 48"
    using round_binary64_eval[of 4 "64 / 3" 6004799503160661]
    by (simp add: roundEven_def Let_def)
  show "round_binary64 (1024 - 6004799503160661 / 2 ^ 48) = 8819549270267221 / 2 ^ 43"
    using round_binary64_eval[of 9 "1024 - 6004799503160661 / 2 ^ 48" 8819549270267221]
    by (simp add: roundEven_def Let_def)
  show "round_binary64 (1024 - 8819549270267221 / 2 ^ 43) = 187649984473771 / 2 ^ 43"
    using round_binary64_eval[of 4 "1024 - 8819549270267221 / 2 ^ 43" 6004799503160672]
    by (simp add: roundEven_def Let_def)
  show "round_binary64 ((187649984473771 / 2 ^ 43) / (6004799503160661 / 2 ^ 48)) = 1 + 1 / 2 ^ 49"
    using round_binary64_eval[of 0 "(187649984473771 / 2 ^ 43) / (6004799503160661 / 2 ^ 48)"
        4503599627370504]
    by (simp add: roundEven_def Let_def)
qed

lemma double_position_values:
  "round_binary64 ((1 + 1 / 2 ^ 49) * 200) = 200 + 12 / 2 ^ 45"
  "round_binary64 (100 - (200 + 12 / 2 ^ 45)) = - 100 - 3 / 2 ^ 43"
proof -
  show "round_binary64 ((1 + 1 / 2 ^ 49) * 200) = 200 + 12 / 2 ^ 45"
    using round_binary64_eval[of 7 "(1 + 1 / 2 ^ 49) * 200" 7036874417766412]
    by (simp add: roundEven_def Let_def)
  have "round_binary64 (100 + 3 / 2 ^ 43) = 100 + 3 / 2 ^ 43"
    using round_binary64_eval[of 6 "100 + 3 / 2 ^ 43" 7036874417766424]
    by (simp add: roundEven_def Let_def)
  then have "round_binary64 (- (100 + 3 / 2 ^ 43)) = - (100 + 3 / 2 ^ 43)"
    by (simp only: round_binary64_minus)
  then show "round_binary64 (100 - (200 + 12 / 2 ^ 45)) = - 100 - 3 / 2 ^ 43"
    by simp
qed

subsection \<open>Consequences of the three properties\<close>

lemma rnd_mono: "binary64_rounding rnd \<Longrightarrow> x \<le> y \<Longrightarrow> rnd x \<le> rnd y"
  by (simp add: binary64_rounding_def)

lemma rnd_fix:
  "binary64_rounding rnd \<Longrightarrow> \<bar>n\<bar> \<le> 2 ^ 30 \<Longrightarrow> rnd (real_of_int n / 1024) = real_of_int n / 1024"
  by (simp add: binary64_rounding_def)

lemma rnd_error:
  assumes "binary64_rounding rnd" and "\<bar>x\<bar> \<le> B" and "B \<le> 2 ^ 30"
  shows "\<bar>rnd x - x\<bar> \<le> B / 2 ^ 53 + 1 / 2 ^ 60"
proof -
  have "\<bar>x\<bar> \<le> overflowThreshold" using assms(2,3) overflowThreshold_large by linarith
  then have "\<bar>rnd x - x\<bar> \<le> \<bar>x\<bar> / 2 ^ 53 + underflowUnit"
    using assms(1) by (simp add: binary64_rounding_def)
  moreover have "\<bar>x\<bar> / 2 ^ 53 \<le> B / 2 ^ 53" using assms(2) by (simp add: divide_right_mono)
  ultimately show ?thesis using underflowUnit_bounds(2) by linarith
qed

lemma rnd_values:
  assumes "binary64_rounding rnd"
  shows "rnd 0 = 0" "rnd 1 = 1" "rnd (1 / 4) = 1 / 4" "rnd (3 / 4) = 3 / 4" "rnd (3 / 8) = 3 / 8"
    "rnd 2 = 2" "rnd 8 = 8" "rnd 16 = 16" "rnd 64 = 64" "rnd 100 = 100" "rnd 200 = 200"
    "rnd (- 100) = - 100" "rnd 10 = 10" "rnd (21 / 2) = 21 / 2" "rnd (- (1 / 4)) = - (1 / 4)"
    "rnd (- (1 / 64)) = - (1 / 64)"
  using rnd_fix[OF assms, of 0] rnd_fix[OF assms, of 1024] rnd_fix[OF assms, of 256]
    rnd_fix[OF assms, of 768] rnd_fix[OF assms, of 384] rnd_fix[OF assms, of 2048]
    rnd_fix[OF assms, of 8192] rnd_fix[OF assms, of 16384] rnd_fix[OF assms, of 65536]
    rnd_fix[OF assms, of 102400] rnd_fix[OF assms, of 204800] rnd_fix[OF assms, of "- 102400"]
    rnd_fix[OF assms, of 10240] rnd_fix[OF assms, of 10752] rnd_fix[OF assms, of "- 256"]
    rnd_fix[OF assms, of "- 16"]
  by simp_all

lemma intrinsicFactor_fl_bounds:
  assumes R: "binary64_rounding rnd"
  shows "3 / 4 \<le> intrinsicFactor_fl rnd d \<and> intrinsicFactor_fl rnd d \<le> 1"
proof -
  define len where "len = (if length (content d) = 0 then 1 else int (length (content d)))"
  define k where "k = min (max len 1) 10 - 1"
  define ratio where "ratio = rnd (real_of_int k / 9)"
  define m where "m = rnd (ratio * 0.25)"
  have k: "0 \<le> k" "k \<le> 9" by (simp_all add: k_def)
  have "0 \<le> real_of_int k / 9" "real_of_int k / 9 \<le> 1" using k by simp_all
  then have ratio: "0 \<le> ratio" "ratio \<le> 1"
    using rnd_mono[OF R, of 0 "real_of_int k / 9"] rnd_mono[OF R, of "real_of_int k / 9" 1]
    by (simp_all add: ratio_def rnd_values[OF R])
  then have "0 \<le> ratio * 0.25" "ratio * 0.25 \<le> 1 / 4" by simp_all
  then have m: "0 \<le> m" "m \<le> 1 / 4"
    using rnd_mono[OF R, of 0 "ratio * 0.25"] rnd_mono[OF R, of "ratio * 0.25" "1 / 4"]
    by (simp_all add: m_def rnd_values[OF R])
  then have "3 / 4 \<le> 1 - m" "1 - m \<le> 1" by simp_all
  then have "3 / 4 \<le> rnd (1 - m)" "rnd (1 - m) \<le> 1"
    using rnd_mono[OF R, of "3 / 4" "1 - m"] rnd_mono[OF R, of "1 - m" 1]
    by (simp_all add: rnd_values[OF R])
  moreover have "intrinsicFactor_fl rnd d = rnd (1 - m)"
    by (simp add: intrinsicFactor_fl_def Let_def m_def ratio_def k_def len_def)
  ultimately show ?thesis by simp
qed

lemma actualDuration_fl: 
  "actualDuration (withActualDuration_fl rnd s d)
     = rnd (16 / rnd (speed s * intrinsicFactor_fl rnd d))"
  by (simp add: withActualDuration_fl_def Let_def DanmakuItem.defs OverlayDanmaku.defs
      BASE_DURATION_def)

lemma time_fl: "time (withActualDuration_fl rnd s d) = time d"
  by (simp add: withActualDuration_fl_def Let_def DanmakuItem.defs OverlayDanmaku.defs)

lemma actualDuration_fl_bounds:
  assumes R: "binary64_rounding rnd" and sp: "1 / 2 \<le> speed s" "speed s \<le> 2"
  shows "8 \<le> actualDuration (withActualDuration_fl rnd s d)
       \<and> actualDuration (withActualDuration_fl rnd s d) \<le> 64"
proof -
  define f where "f = intrinsicFactor_fl rnd d"
  define g where "g = rnd (speed s * f)"
  have f: "3 / 4 \<le> f" "f \<le> 1" using intrinsicFactor_fl_bounds[OF R, of d] by (simp_all add: f_def)
  have "3 / 8 \<le> speed s * f"
  proof -
    have "(1 / 2) * (3 / 4) \<le> speed s * f" using sp(1) f(1) by (intro mult_mono) simp_all
    then show ?thesis by simp
  qed
  moreover have "speed s * f \<le> 2"
  proof -
    have "speed s * f \<le> 2 * 1" using sp f by (intro mult_mono) simp_all
    then show ?thesis by simp
  qed
  ultimately have g: "3 / 8 \<le> g" "g \<le> 2"
    using rnd_mono[OF R, of "3 / 8" "speed s * f"] rnd_mono[OF R, of "speed s * f" 2]
    by (simp_all add: g_def rnd_values[OF R])
  have "8 \<le> 16 / g" using g by (simp add: le_divide_eq)
  moreover have "16 / g \<le> 64" using g by (simp add: divide_le_eq)
  ultimately have "8 \<le> rnd (16 / g)" "rnd (16 / g) \<le> 64"
    using rnd_mono[OF R, of 8 "16 / g"] rnd_mono[OF R, of "16 / g" 64]
    by (simp_all add: rnd_values[OF R])
  then show ?thesis by (simp add: actualDuration_fl g_def f_def)
qed


lemma progress_fl_bounds:
  assumes R: "binary64_rounding rnd"
    and D: "8 \<le> actualDuration d" "actualDuration d \<le> 64"
    and c: "0 \<le> cur" "cur \<le> 2 ^ 20"
    and w: "secondPass_fl rnd cur d"
  shows "- 0.5 / actualDuration d - 1 / 2 ^ 35 \<le> progress rnd cur d"
    and "progress rnd cur d \<le> 1 + 1 / 2 ^ 35"
proof -
  define D where "D = actualDuration d"
  define t where "t = time d"
  define x where "x = cur - t"
  define y where "y = rnd x"
  define q where "q = y / D"
  define a1 :: real where "a1 = 2 ^ 20 / 2 ^ 53 + 1 / 2 ^ 60"
  define a2 :: real where "a2 = (2 ^ 20 + 1) / 2 ^ 53 + 1 / 2 ^ 60"
  define a3 :: real where "a3 = 65 / 2 ^ 53 + 1 / 2 ^ 60"
  define a4 :: real where "a4 = 2 / 2 ^ 53 + 1 / 2 ^ 60"
  define e :: real where "e = a2 + a3"
  have num: "0 \<le> a1" "a1 \<le> a2" "0 \<le> a3" "a2 \<le> 1 / 4" "a3 \<le> 1 / 4" "0 \<le> e"
    "e / 8 + a4 \<le> 1 / 2 ^ 35"
    by (simp_all add: a1_def a2_def a3_def a4_def e_def)
  have Dr: "8 \<le> D" "D \<le> 64" using D by (simp_all add: D_def)
  have Dpos: "0 < D" using Dr by simp
  have lo: "rnd (cur - D) \<le> t" and hi: "t \<le> rnd (cur + 0.5)"
    using w by (simp_all add: secondPass_fl_def D_def t_def)
  have c20: "cur \<le> 1048576" using c(2) by simp
  have "\<bar>cur - D\<bar> \<le> 2 ^ 20" using c(1) c20 Dr by simp
  from rnd_error[OF R this] have e1: "\<bar>rnd (cur - D) - (cur - D)\<bar> \<le> a1"
    by (simp add: a1_def)
  have "\<bar>cur + 0.5\<bar> \<le> 2 ^ 20 + 1" using c(1) c20 by simp
  from rnd_error[OF R this] have e2: "\<bar>rnd (cur + 0.5) - (cur + 0.5)\<bar> \<le> a2"
    by (simp add: a2_def)
  have xu: "x \<le> D + a1" using lo e1 unfolding x_def by linarith
  have xl: "- 0.5 - a2 \<le> x" using hi e2 unfolding x_def by linarith
  have "\<bar>x\<bar> \<le> 65" using xu xl Dr num by linarith
  from rnd_error[OF R this] have e3: "\<bar>y - x\<bar> \<le> a3" by (simp add: y_def a3_def)
  have yu: "y \<le> D + e" using xu e3 num unfolding e_def by linarith
  have yl: "- 0.5 - e \<le> y" using xl e3 unfolding e_def by linarith
  have eD: "e / D \<le> e / 8" using num(6) Dr(1) by (intro divide_left_mono) simp_all
  have eD0: "0 \<le> e / D" using num(6) Dpos by simp
  have qu: "q \<le> 1 + e / 8"
  proof -
    have "q \<le> (D + e) / D" unfolding q_def using yu Dpos by (simp add: divide_right_mono)
    also have "\<dots> = 1 + e / D" using Dpos by (simp add: add_divide_distrib)
    finally show ?thesis using eD by linarith
  qed
  have ql: "- 0.5 / D - e / 8 \<le> q"
  proof -
    have "(- 0.5 - e) / D \<le> q" unfolding q_def using yl Dpos by (simp add: divide_right_mono)
    moreover have "(- 0.5 - e) / D = - 0.5 / D - e / D" by (simp add: diff_divide_distrib)
    ultimately show ?thesis using eD by linarith
  qed
  have half: "0 \<le> 0.5 / D" "0.5 / D \<le> 1 / 16"
    using Dr Dpos by (simp_all add: divide_le_eq)
  have halfneg: "- 0.5 / D = - (0.5 / D)" by simp
  have "e \<le> 1 / 2" using num(4,5) unfolding e_def by linarith
  then have e8: "e / 8 \<le> 1 / 16" by simp
  have e80: "0 \<le> e / 8" using num(6) by simp
  have "\<bar>q\<bar> \<le> 2" using qu ql half e8 e80 unfolding halfneg by linarith
  from rnd_error[OF R this] have e4: "\<bar>rnd q - q\<bar> \<le> a4" by (simp add: a4_def)
  have p: "progress rnd cur d = rnd q"
    by (simp add: progress_def Let_def q_def y_def x_def t_def D_def)
  have "- 0.5 / D - 1 / 2 ^ 35 \<le> rnd q" using ql e4 num(7) by linarith
  then show "- 0.5 / actualDuration d - 1 / 2 ^ 35 \<le> progress rnd cur d"
    unfolding p D_def .
  show "progress rnd cur d \<le> 1 + 1 / 2 ^ 35"
    unfolding p using qu e4 num(7) by linarith
qed

lemma currentX_fl_error:
  assumes R: "binary64_rounding rnd" and p: "- 1 \<le> progress rnd cur d" "progress rnd cur d \<le> 2"
  shows "\<bar>currentX rnd cur d - (100 - 200 * progress rnd cur d)\<bar> \<le> 1 / 2 ^ 43"
proof -
  define pr where "pr = progress rnd cur d"
  define z1 where "z1 = pr * 200"
  define r1 where "r1 = rnd z1"
  define z2 where "z2 = 100 - r1"
  define b1 :: real where "b1 = 400 / 2 ^ 53 + 1 / 2 ^ 60"
  define b2 :: real where "b2 = 512 / 2 ^ 53 + 1 / 2 ^ 60"
  have num: "b1 \<le> 1" "b1 + b2 \<le> 1 / 2 ^ 43" by (simp_all add: b1_def b2_def)
  have pb: "- 1 \<le> pr" "pr \<le> 2" using p by (simp_all add: pr_def)
  have z1b: "- 200 \<le> z1" "z1 \<le> 400" using pb unfolding z1_def by linarith+
  then have "\<bar>z1\<bar> \<le> 400" by linarith
  from rnd_error[OF R this] have e1: "\<bar>r1 - z1\<bar> \<le> b1" by (simp add: r1_def b1_def)
  have "\<bar>z2\<bar> \<le> 512" using e1 z1b num(1) unfolding z2_def by linarith
  from rnd_error[OF R this] have e2: "\<bar>rnd z2 - z2\<bar> \<le> b2" by (simp add: b2_def)
  have cx: "currentX rnd cur d = rnd z2"
    by (simp add: currentX_def Let_def z2_def r1_def z1_def pr_def rnd_values[OF R])
  have "\<bar>rnd z2 - (100 - 200 * pr)\<bar> \<le> 1 / 2 ^ 43"
    using e1 e2 num(2) unfolding z2_def z1_def by linarith
  then show ?thesis unfolding cx pr_def .
qed

lemma progress_fl_examples:
  assumes R: "binary64_rounding rnd"
  shows "progress rnd 10 (d\<lparr>time := 10, actualDuration := 16\<rparr>) = 0"
    and "progress rnd 26 (d\<lparr>time := 10, actualDuration := 16\<rparr>) = 1"
    and "currentX rnd 10 (d\<lparr>time := 10, actualDuration := 16\<rparr>) = 100"
    and "currentX rnd 26 (d\<lparr>time := 10, actualDuration := 16\<rparr>) = - 100"
  by (simp_all add: progress_def currentX_def Let_def rnd_values[OF R])


subsection \<open>Exact arithmetic as an instance\<close>

lemma intrinsicFactor_fl_exact:
  "intrinsicFactor_fl exact d = spec_intrinsicFactor (spec_length (content d))"
  by (simp add: intrinsicFactor_fl_def exact_def Let_def spec_intrinsicFactor_def spec_length_def
      clamp_def min_def max_def)

lemma withActualDuration_fl_exact: "withActualDuration_fl exact s d = withActualDuration s d"
  by (simp add: withActualDuration_fl_def withActualDuration_def intrinsicFactor_fl_def exact_def
      Let_def)

lemma passes_fl_exact:
  "firstPass_fl exact s cur d = firstPass s cur d"
  "secondPass_fl exact cur e = secondPass cur e"
  by (simp_all add: firstPass_fl_def firstPass_def maxDuration_fl_def maxDuration_def
      secondPass_fl_def secondPass_def exact_def)

lemma activeOverlayDanmaku_fl_exact:
  "activeOverlayDanmaku_fl exact items cur s = activeOverlayDanmaku items cur s"
proof -
  have nz: "intrinsicFactor_fl exact d \<noteq> 0" for d
    using spec_intrinsicFactor_bounds[of "spec_length (content d)"]
    by (simp add: intrinsicFactor_fl_exact)
  have "(exact (speed s * 0.75) = 0 \<or> (\<exists>d\<in>set items. exact (speed s * intrinsicFactor_fl exact d) = 0))
      \<longleftrightarrow> speed s = 0"
    using nz by (auto simp: exact_def)
  then show ?thesis
    unfolding activeOverlayDanmaku_fl_def activeOverlayDanmaku_def
    by (simp add: withActualDuration_fl_exact [abs_def] passes_fl_exact [abs_def])
qed

lemma progress_exact_bounds:
  assumes "0 < actualDuration d" and "secondPass cur d"
  shows "- 0.5 / actualDuration d \<le> progress exact cur d \<and> progress exact cur d \<le> 1"
proof -
  have a: "- 0.5 \<le> cur - time d" "cur - time d \<le> actualDuration d"
    using assms(2) by (simp_all add: secondPass_def)
  have "- 0.5 / actualDuration d \<le> (cur - time d) / actualDuration d"
    using a(1) assms(1) by (intro divide_right_mono) simp_all
  moreover have "(cur - time d) / actualDuration d \<le> 1"
    using a(2) assms(1) by simp
  ultimately show ?thesis by (simp add: progress_def exact_def)
qed

lemma currentX_exact: "currentX exact cur d = 100 - 200 * progress exact cur d"
  by (simp add: currentX_def Let_def exact_def)

lemma visible_fl:
  assumes "activeOverlayDanmaku_fl rnd items cur s = Some visible" and "d \<in> set visible"
  shows "\<exists>d0. d = withActualDuration_fl rnd s d0" and "secondPass_fl rnd cur d"
  using assms by (auto simp: activeOverlayDanmaku_fl_def split: if_splits)

lemma visible_sample:
  "activeOverlayDanmaku_fl exact [textItem 10 ''a''] 14 defaultSettings
     = Some [withActualDuration_fl exact defaultSettings (textItem 10 ''a'')]"
  "progress exact 14 (withActualDuration_fl exact defaultSettings (textItem 10 ''a'')) = 1 / 4"
  "currentX exact 14 (withActualDuration_fl exact defaultSettings (textItem 10 ''a'')) = 50"
proof -
  have h: "show_s defaultSettings" "speed defaultSettings \<noteq> 0"
    by (simp_all add: defaultSettings_def)
  show "activeOverlayDanmaku_fl exact [textItem 10 ''a''] 14 defaultSettings
     = Some [withActualDuration_fl exact defaultSettings (textItem 10 ''a'')]"
    unfolding activeOverlayDanmaku_fl_exact withActualDuration_fl_exact
    using h by (simp add: activeOverlayDanmaku_def firstPass_def maxDuration_def
        BASE_DURATION_def secondPass_text spec_duration_a) (simp add: textItem_def defaultSettings_def)
  show p: "progress exact 14 (withActualDuration_fl exact defaultSettings (textItem 10 ''a'')) = 1 / 4"
    unfolding withActualDuration_fl_exact
    by (simp add: progress_def exact_def actualDuration_withActualDuration time_withActualDuration
        spec_duration_a) (simp add: textItem_def defaultSettings_def spec_duration_a)
  show "currentX exact 14 (withActualDuration_fl exact defaultSettings (textItem 10 ''a'')) = 50"
    by (simp add: currentX_exact p)
qed

lemma visible_sample_doubles:
  "activeOverlayDanmaku_fl round_binary64 [boundaryItem] 1024 defaultSettings
     = Some [withActualDuration_fl round_binary64 defaultSettings boundaryItem]"
  "progress round_binary64 1024 (withActualDuration_fl round_binary64 defaultSettings boundaryItem)
     = 1 + 1 / 2 ^ 49"
  "currentX round_binary64 1024 (withActualDuration_fl round_binary64 defaultSettings boundaryItem)
     = - 100 - 3 / 2 ^ 43"
proof -
  note R = binary64_rounding_round_binary64
  note v = rnd_values[OF R]
  have h: "round_binary64 (2049 / 2) = 2049 / 2"
    using rnd_fix[OF R, of 1049088] by simp
  define t :: real where "t = 8819549270267221 / 2 ^ 43"
  define D :: real where "D = 6004799503160661 / 2 ^ 48"
  have b: "boundaryItem = textItem t ''aaaaaaaaaa''" by (simp add: boundaryItem_def t_def)
  have f: "intrinsicFactor_fl round_binary64 (textItem t ''aaaaaaaaaa'') = 3 / 4"
    by (simp add: intrinsicFactor_fl_def Let_def textItem_def v)
  have d64: "round_binary64 (64 / 3) = D" unfolding D_def by (rule double_values(1))
  have Dd: "actualDuration (withActualDuration_fl round_binary64 defaultSettings (textItem t ''aaaaaaaaaa'')) = D"
    by (simp add: actualDuration_fl f defaultSettings_def v d64)
  have M: "maxDuration_fl round_binary64 defaultSettings = D"
    by (simp add: maxDuration_fl_def BASE_DURATION_def defaultSettings_def v d64)
  have g: "show_s defaultSettings" "round_binary64 (speed defaultSettings * 0.75) \<noteq> 0"
    "round_binary64 (speed defaultSettings * intrinsicFactor_fl round_binary64 (textItem t ''aaaaaaaaaa'')) \<noteq> 0"
    by (simp_all add: f defaultSettings_def v)
  have tm: "time (textItem t ''aaaaaaaaaa'') = t" by (simp add: textItem_def)
  have lo: "round_binary64 (1024 - D) = t" unfolding D_def t_def by (rule double_values(2))
  have alive: "round_binary64 (1024 - t) = 187649984473771 / 2 ^ 43"
    unfolding t_def by (rule double_values(3))
  have q: "round_binary64 ((187649984473771 / 2 ^ 43) / D) = 1 + 1 / 2 ^ 49"
    unfolding D_def by (rule double_values(4))
  have tle: "t \<le> 2049 / 2" by (simp add: t_def)
  have fp: "firstPass_fl round_binary64 defaultSettings 1024 (textItem t ''aaaaaaaaaa'')"
    using tle by (simp add: firstPass_fl_def tm M lo h)
  have sp: "secondPass_fl round_binary64 1024
      (withActualDuration_fl round_binary64 defaultSettings (textItem t ''aaaaaaaaaa''))"
    using tle by (simp add: secondPass_fl_def Dd time_fl tm lo h)
  show p: "progress round_binary64 1024
      (withActualDuration_fl round_binary64 defaultSettings boundaryItem) = 1 + 1 / 2 ^ 49"
    unfolding b by (simp only: progress_def Let_def Dd time_fl tm alive q)
  have s200: "round_binary64 (100 - - 100) = 200" using v by simp
  show "currentX round_binary64 1024
      (withActualDuration_fl round_binary64 defaultSettings boundaryItem) = - 100 - 3 / 2 ^ 43"
    by (simp only: currentX_def Let_def p s200 double_position_values)
  show "activeOverlayDanmaku_fl round_binary64 [boundaryItem] 1024 defaultSettings
      = Some [withActualDuration_fl round_binary64 defaultSettings boundaryItem]"
    unfolding b using g fp sp by (simp add: activeOverlayDanmaku_fl_def)
qed

text \<open>
  C3, as amended.  Let the speed lie in its range \<open>[0.5, 2]\<close> and the playback time in
  \<open>[0, 2 ^ 20]\<close> seconds.  For every item of the visible set, computed in doubles, the
  duration \<open>D\<close> lies in \<open>[8, 64]\<close>, \<open>progress = (currentTime - t) / D\<close> lies between
  \<open>- 0.5 / D - 2 ^ -35\<close> and \<open>1 + 2 ^ -35\<close>, and the horizontal position, which is the
  rendered \<open>translateX\<close>, differs from \<open>100 - 200 * progress\<close> by at most \<open>2 ^ -43\<close>.  For an
  item with \<open>t = 10\<close> and \<open>D = 16\<close> progress is exactly 0 at time 10 and exactly 1 at time 26,
  and the position exactly \<open>+100\<close> and \<open>-100\<close>.  In exact arithmetic progress lies in the
  closed interval from \<open>- 0.5 / D\<close> to \<open>1\<close> and the position is \<open>100 - 200 * progress\<close>.

  The statement is about every rounding with the three properties of \<open>binary64_rounding\<close>,
  so about \<open>round_binary64\<close> and about \<open>exact\<close>.
\<close>

theorem visible_progress_and_position:
  assumes "binary64_rounding rnd" and "1 / 2 \<le> speed s" and "speed s \<le> 2"
    and "0 \<le> cur" and "cur \<le> 2 ^ 20"
    and "activeOverlayDanmaku_fl rnd items cur s = Some visible" and "d \<in> set visible"
  shows "8 \<le> actualDuration d \<and> actualDuration d \<le> 64
       \<and> - 0.5 / actualDuration d - 1 / 2 ^ 35 \<le> progress rnd cur d
       \<and> progress rnd cur d \<le> 1 + 1 / 2 ^ 35
       \<and> \<bar>currentX rnd cur d - (100 - 200 * progress rnd cur d)\<bar> \<le> 1 / 2 ^ 43
       \<and> el_translateX (renderOverlayItem rnd s cur d) = currentX rnd cur d
       \<and> progress rnd 10 (d\<lparr>time := 10, actualDuration := 16\<rparr>) = 0
       \<and> progress rnd 26 (d\<lparr>time := 10, actualDuration := 16\<rparr>) = 1
       \<and> currentX rnd 10 (d\<lparr>time := 10, actualDuration := 16\<rparr>) = 100
       \<and> currentX rnd 26 (d\<lparr>time := 10, actualDuration := 16\<rparr>) = - 100
       \<and> (rnd = exact \<longrightarrow>
             - 0.5 / actualDuration d \<le> progress rnd cur d \<and> progress rnd cur d \<le> 1
             \<and> currentX rnd cur d = 100 - 200 * progress rnd cur d)"
proof -
  note R = assms(1)
  obtain d0 where d: "d = withActualDuration_fl rnd s d0"
    using visible_fl(1)[OF assms(6,7)] by blast
  have w: "secondPass_fl rnd cur d" by (rule visible_fl(2)[OF assms(6,7)])
  have D: "8 \<le> actualDuration d" "actualDuration d \<le> 64"
    using actualDuration_fl_bounds[OF R assms(2,3), of d0] by (simp_all add: d)
  note pb = progress_fl_bounds[OF R D assms(4,5) w]
  have half: "0.5 / actualDuration d \<le> 1 / 16" using D by (simp add: divide_le_eq)
  have halfneg: "- 0.5 / actualDuration d = - (0.5 / actualDuration d)" by simp
  have small: "(1::real) / 2 ^ 35 \<le> 1 / 2" by simp
  have p1: "- 1 \<le> progress rnd cur d" using pb(1) half small unfolding halfneg by linarith
  have p2: "progress rnd cur d \<le> 2" using pb(2) small by linarith
  note cx = currentX_fl_error[OF R p1 p2]
  have r: "el_translateX (renderOverlayItem rnd s cur d) = currentX rnd cur d"
    by (simp add: renderOverlayItem_def split: option.splits)
  have ex: "- 0.5 / actualDuration d \<le> progress rnd cur d \<and> progress rnd cur d \<le> 1
      \<and> currentX rnd cur d = 100 - 200 * progress rnd cur d" if e: "rnd = exact"
  proof -
    have "secondPass cur d" using w by (simp add: e passes_fl_exact)
    moreover have "0 < actualDuration d" using D by simp
    ultimately show ?thesis
      using progress_exact_bounds[of d cur] currentX_exact[of cur d] by (simp add: e)
  qed
  show ?thesis
    using D pb cx r progress_fl_examples[OF R, of d] ex by blast
qed

theorem visible_progress_and_position_witness:
  "binary64_rounding exact \<and> binary64_rounding round_binary64
   \<and> 1 / 2 \<le> speed defaultSettings \<and> speed defaultSettings \<le> 2
   \<and> (0::real) \<le> 14 \<and> (14::real) \<le> 2 ^ 20 \<and> (0::real) \<le> 1024 \<and> (1024::real) \<le> 2 ^ 20
   \<and> activeOverlayDanmaku_fl exact [textItem 10 ''a''] 14 defaultSettings
       = Some [withActualDuration_fl exact defaultSettings (textItem 10 ''a'')]
   \<and> progress exact 14 (withActualDuration_fl exact defaultSettings (textItem 10 ''a'')) = 1 / 4
   \<and> currentX exact 14 (withActualDuration_fl exact defaultSettings (textItem 10 ''a'')) = 50
   \<and> 8 \<le> actualDuration (withActualDuration_fl exact defaultSettings (textItem 10 ''a''))
   \<and> progress exact 14 (withActualDuration_fl exact defaultSettings (textItem 10 ''a'')) \<le> 1
   \<and> activeOverlayDanmaku_fl round_binary64 [boundaryItem] 1024 defaultSettings
       = Some [withActualDuration_fl round_binary64 defaultSettings boundaryItem]
   \<and> progress round_binary64 1024 (withActualDuration_fl round_binary64 defaultSettings boundaryItem)
       = 1 + 1 / 2 ^ 49
   \<and> currentX round_binary64 1024 (withActualDuration_fl round_binary64 defaultSettings boundaryItem)
       = - 100 - 3 / 2 ^ 43
   \<and> progress round_binary64 1024 (withActualDuration_fl round_binary64 defaultSettings boundaryItem)
       \<le> 1 + 1 / 2 ^ 35
   \<and> actualDuration (withActualDuration_fl round_binary64 defaultSettings boundaryItem) \<le> 64"
proof -
  have h: "1 / 2 \<le> speed defaultSettings" "speed defaultSettings \<le> 2"
    by (simp_all add: defaultSettings_def)
  have c: "(0::real) \<le> 14" "(14::real) \<le> 2 ^ 20" by simp_all
  have c': "(0::real) \<le> 1024" "(1024::real) \<le> 2 ^ 20" by simp_all
  have e: "8 \<le> actualDuration (withActualDuration_fl exact defaultSettings (textItem 10 ''a''))
      \<and> progress exact 14 (withActualDuration_fl exact defaultSettings (textItem 10 ''a'')) \<le> 1"
    using visible_progress_and_position[OF binary64_rounding_exact h c visible_sample(1),
        of "withActualDuration_fl exact defaultSettings (textItem 10 ''a'')"]
    by simp
  have d: "progress round_binary64 1024 (withActualDuration_fl round_binary64 defaultSettings boundaryItem)
       \<le> 1 + 1 / 2 ^ 35
      \<and> actualDuration (withActualDuration_fl round_binary64 defaultSettings boundaryItem) \<le> 64"
    using visible_progress_and_position[OF binary64_rounding_round_binary64 h c'
        visible_sample_doubles(1),
        of "withActualDuration_fl round_binary64 defaultSettings boundaryItem"]
    by simp
  show ?thesis
    using binary64_rounding_exact binary64_rounding_round_binary64 h c c' visible_sample
      visible_sample_doubles e d by blast
qed

lemma progress_outside_unit_interval_any_rounding:
  assumes R: "binary64_rounding rnd"
  shows "map_option (map (progress rnd 26))
           (activeOverlayDanmaku_fl rnd [textItem 10 ''a''] 26 defaultSettings) = Some [1]"
    and "map_option (map (progress rnd 10))
           (activeOverlayDanmaku_fl rnd [textItem 10.25 ''a''] 10 defaultSettings) = Some [- 1 / 64]"
proof -
  have more: "rnd (53 / 2) = 53 / 2" "rnd (- 6) = - 6" "rnd (41 / 4) = 41 / 4"
    using rnd_fix[OF R, of 27136] rnd_fix[OF R, of "- 6144"] rnd_fix[OF R, of 10496] by simp_all
  have f: "intrinsicFactor_fl rnd (textItem t ''a'') = 1" for t
    by (simp add: intrinsicFactor_fl_def Let_def textItem_def rnd_values[OF R])
  have D: "actualDuration (withActualDuration_fl rnd defaultSettings (textItem t ''a'')) = 16" for t
    by (simp add: actualDuration_fl f defaultSettings_def rnd_values[OF R])
  have "16 \<le> (16::real) / (3 / 4)" by simp
  from rnd_mono[OF R this] have M: "16 \<le> maxDuration_fl rnd defaultSettings"
    by (simp add: maxDuration_fl_def BASE_DURATION_def defaultSettings_def rnd_values[OF R])
  have g: "show_s defaultSettings" "rnd (speed defaultSettings * 0.75) \<noteq> 0"
    "rnd (speed defaultSettings * intrinsicFactor_fl rnd (textItem t ''a'')) \<noteq> 0" for t
    by (simp_all add: f defaultSettings_def rnd_values[OF R])
  have tm: "time (textItem t c) = t" for t c by (simp add: textItem_def)
  have "rnd (26 - maxDuration_fl rnd defaultSettings) \<le> rnd 10"
    using M by (intro rnd_mono[OF R]) simp
  then have fp1: "firstPass_fl rnd defaultSettings 26 (textItem 10 ''a'')"
    by (simp add: firstPass_fl_def tm rnd_values[OF R] more)
  have sp1: "secondPass_fl rnd 26 (withActualDuration_fl rnd defaultSettings (textItem 10 ''a''))"
    by (simp add: secondPass_fl_def D time_fl tm rnd_values[OF R] more)
  have "rnd (10 - maxDuration_fl rnd defaultSettings) \<le> rnd (- 6)"
    using M by (intro rnd_mono[OF R]) simp
  then have fp2: "firstPass_fl rnd defaultSettings 10 (textItem 10.25 ''a'')"
    by (simp add: firstPass_fl_def tm rnd_values[OF R] more)
  have sp2: "secondPass_fl rnd 10 (withActualDuration_fl rnd defaultSettings (textItem 10.25 ''a''))"
    by (simp add: secondPass_fl_def D time_fl tm rnd_values[OF R] more)
  show "map_option (map (progress rnd 26))
           (activeOverlayDanmaku_fl rnd [textItem 10 ''a''] 26 defaultSettings) = Some [1]"
    using g fp1 sp1
    by (simp add: activeOverlayDanmaku_fl_def progress_def Let_def D time_fl tm rnd_values[OF R])
  show "map_option (map (progress rnd 10))
           (activeOverlayDanmaku_fl rnd [textItem 10.25 ''a''] 10 defaultSettings) = Some [- 1 / 64]"
    using g fp2 sp2
    by (simp add: activeOverlayDanmaku_fl_def progress_def Let_def D time_fl tm rnd_values[OF R])
qed

text \<open>
  C3 as written puts progress in the half-open interval \<open>[0, 1)\<close>.  In doubles, and in
  exact arithmetic too, the visible set holds an item with progress 1 (an item of time 10
  and duration 16 at time 26) and an item with negative progress (an item of time 10.25 at
  time 10, inside the half second of lookahead).
\<close>

theorem visible_progress_outside_unit_interval:
  "map_option (map (progress round_binary64 26))
     (activeOverlayDanmaku_fl round_binary64 [textItem 10 ''a''] 26 defaultSettings) = Some [1]
   \<and> map_option (map (progress round_binary64 10))
     (activeOverlayDanmaku_fl round_binary64 [textItem 10.25 ''a''] 10 defaultSettings)
       = Some [- 1 / 64]
   \<and> map_option (map (progress exact 26))
     (activeOverlayDanmaku_fl exact [textItem 10 ''a''] 26 defaultSettings) = Some [1]
   \<and> map_option (map (progress exact 10))
     (activeOverlayDanmaku_fl exact [textItem 10.25 ''a''] 10 defaultSettings) = Some [- 1 / 64]"
  using progress_outside_unit_interval_any_rounding[OF binary64_rounding_exact]
    progress_outside_unit_interval_any_rounding[OF binary64_rounding_round_binary64]
  by blast

section \<open>The colour string\<close>













section \<open>The history store: cap and eviction\<close>

lemma fold_delete:
  "fold AList.delete ks h = filter (\<lambda>e. fst e \<notin> set ks) h"
proof (induction ks arbitrary: h)
  case Nil
  then show ?case by simp
next
  case (Cons k ks)
  have "AList.delete k h = filter (\<lambda>e. fst e \<noteq> k) h"
    by (simp add: AList.delete_eq case_prod_unfold) metis
  then show ?case using Cons.IH[of "AList.delete k h"]
    by (simp add: conj_commute)
qed

lemma saveHistory_evict:
  assumes "raw \<noteq> Malformed"
  shows "saveHistory sid now t idx raw =
     Stored (evict (AList.update sid \<lparr>time_h = t, segmentIndex = idx, ts = now\<rparr> (records raw)))"
  using assms
  by (cases raw) (simp_all add: saveHistory_def evict_def records_def Let_def fold_delete)

lemma saveHistory_Malformed: "saveHistory sid now t idx Malformed = Malformed"
  by (simp add: saveHistory_def)

lemma length_evict: "length (evict H) \<le> 100"
proof (cases "length H > 100")
  case False
  then show ?thesis by (simp add: evict_def)
next
  case True
  define S where "S = sort_key (\<lambda>k. - tsOf H k) (map fst H)"
  define P where "P = (\<lambda>k. k \<notin> set (drop 100 S))"
  have "length (filter (\<lambda>e. P (fst e)) H) = length (filter P (map fst H))"
    by (simp add: filter_map comp_def)
  also have "\<dots> = size (filter_mset P (mset (map fst H)))"
    by (metis mset_filter size_mset)
  also have "mset (map fst H) = mset (take 100 S) + mset (drop 100 S)"
    unfolding S_def by (metis append_take_drop_id mset_append mset_sort)
  finally have eq: "length (filter (\<lambda>e. P (fst e)) H) =
      size (filter_mset P (mset (take 100 S) + mset (drop 100 S)))" .
  have "filter_mset P (mset (drop 100 S)) = {#}"
    by (simp add: P_def)
  with eq have "length (filter (\<lambda>e. P (fst e)) H) = size (filter_mset P (mset (take 100 S)))"
    by simp
  also have "\<dots> \<le> size (mset (take 100 S))" by (rule size_filter_mset_lesseq)
  also have "\<dots> \<le> 100" by simp
  finally have "length (filter (\<lambda>e. P (fst e)) H) \<le> 100" .
  then show ?thesis using True by (simp add: evict_def P_def S_def)
qed

lemma length_records_saveHistory: "length (records (saveHistory sid now t idx raw)) \<le> 100"
proof (cases "raw = Malformed")
  case True
  then show ?thesis by (simp add: saveHistory_Malformed records_def)
next
  case False
  then show ?thesis by (simp add: saveHistory_evict records_def length_evict)
qed

lemma saveAll_snoc:
  "saveAll (cs @ [c]) raw =
     saveHistory (sc_sessionId c) (sc_now c) (sc_time c) (sc_segmentIdx c) (saveAll cs raw)"
  by (simp add: saveAll_def)

lemma length_records_saveAll:
  assumes "calls \<noteq> [] \<or> length (records raw) \<le> 100"
  shows "length (records (saveAll calls raw)) \<le> 100"
proof (cases calls rule: rev_cases)
  case Nil
  then show ?thesis using assms by (simp add: saveAll_def)
next
  case (snoc cs c)
  then show ?thesis by (simp add: saveAll_snoc length_records_saveHistory)
qed


lemma tsOf_distinct:
  assumes "distinct (map fst H)" "e \<in> set H"
  shows "tsOf H (fst e) = ts (snd e)"
proof -
  have "map_of H (fst e) = Some (snd e)"
    using assms by (intro map_of_is_SomeI) simp_all
  then show ?thesis by (simp add: tsOf_def)
qed

lemma evict_filter:
  "length H > 100 \<Longrightarrow>
   evict H = filter (\<lambda>e. fst e \<notin> set (drop 100 (sort_key (\<lambda>k. - tsOf H k) (map fst H)))) H"
  by (simp add: evict_def)

lemma set_evict_subset: "set (evict H) \<subseteq> set H"
  by (auto simp: evict_def)

lemma distinct_evict: "distinct (map fst H) \<Longrightarrow> distinct (map fst (evict H))"
  by (simp add: evict_def distinct_map_filter)

lemma evict_exact:
  assumes d: "distinct (map fst H)" and l: "length H > 100"
  shows "length (evict H) = 100"
    and "\<forall>k\<in>set (evict H). \<forall>r\<in>set H - set (evict H). ts (snd r) \<le> ts (snd k)"
proof -
  define f where "f = (\<lambda>k. - tsOf H k)"
  define S where "S = sort_key f (map fst H)"
  define T where "T = take 100 S"
  define R where "R = drop 100 S"
  have ev: "evict H = filter (\<lambda>e. fst e \<notin> set R) H"
    using l by (simp add: evict_filter R_def S_def f_def)
  have S: "S = T @ R" by (simp add: T_def R_def)
  have dS: "distinct S" using d by (simp add: S_def)
  have setS: "set S = fst ` set H" by (simp add: S_def)
  have lT: "length T = 100" using l by (simp add: T_def S_def)
  have disj: "set T \<inter> set R = {}" using dS unfolding S by simp
  have "sorted (map f S)" by (simp add: S_def)
  then have ord: "\<forall>x\<in>set T. \<forall>y\<in>set R. f x \<le> f y"
    unfolding S by (auto simp: sorted_append)
  have keys: "set (map fst (evict H)) = set T"
  proof -
    have "set (map fst (evict H)) = fst ` set H - set R"
      unfolding ev by auto
    also have "\<dots> = set T" using setS disj unfolding S by auto
    finally show ?thesis .
  qed
  have "length (evict H) = length (map fst (evict H))" by simp
  also have "\<dots> = card (set (map fst (evict H)))"
    using distinct_card[OF distinct_evict[OF d]] by simp
  also have "\<dots> = card (set T)" using keys by simp
  also have "\<dots> = 100" using dS lT unfolding S by (simp add: distinct_card)
  finally show "length (evict H) = 100" .
  show "\<forall>k\<in>set (evict H). \<forall>r\<in>set H - set (evict H). ts (snd r) \<le> ts (snd k)"
  proof (intro ballI)
    fix k r assume k: "k \<in> set (evict H)" and r: "r \<in> set H - set (evict H)"
    have kH: "k \<in> set H" using k set_evict_subset by blast
    have "fst k \<in> set T" using k keys by (metis image_eqI list.set_map)
    moreover have "fst r \<in> set R" using r unfolding ev by auto
    ultimately have "f (fst k) \<le> f (fst r)" using ord by blast
    then show "ts (snd r) \<le> ts (snd k)"
      using tsOf_distinct[OF d kH] tsOf_distinct[OF d, of r] r by (simp add: f_def)
  qed
qed

lemma evict_keeps:
  assumes d: "distinct (map fst H)" and m: "(sid, r) \<in> set H"
    and few: "length (filter (\<lambda>e. fst e \<noteq> sid \<and> ts r \<le> ts (snd e)) H) < 100"
  shows "(sid, r) \<in> set (evict H)"
proof (cases "length H > 100")
  case False
  then show ?thesis using m by (simp add: evict_def)
next
  case True
  define f where "f = (\<lambda>k. - tsOf H k)"
  define S where "S = sort_key f (map fst H)"
  define Q :: "string \<times> HistoryRecord \<Rightarrow> bool" where "Q = (\<lambda>e. fst e \<noteq> sid \<and> ts r \<le> ts (snd e))"
  have ev: "evict H = filter (\<lambda>e. fst e \<notin> set (drop 100 S)) H"
    using True by (simp add: evict_filter S_def f_def)
  have dS: "distinct S" using d by (simp add: S_def)
  have setS: "set S = fst ` set H" by (simp add: S_def)
  have "sid \<in> set S" using m setS by force
  then obtain pre post where S: "S = pre @ sid # post" by (meson split_list)
  have "sorted (map f S)" by (simp add: S_def)
  then have ord: "\<forall>x\<in>set pre. f x \<le> f sid" unfolding S by (auto simp: sorted_append)
  have nsid: "sid \<notin> set pre" "sid \<notin> set post" "distinct pre" using dS unfolding S by auto
  have fsid: "f sid = - ts r" using tsOf_distinct[OF d m] by (simp add: f_def)
  have "set pre \<subseteq> fst ` set (filter Q H)"
  proof
    fix x assume x: "x \<in> set pre"
    then have "x \<in> fst ` set H" using setS unfolding S by auto
    then obtain e where e: "e \<in> set H" "fst e = x" by auto
    have "f x \<le> f sid" using ord x by blast
    then have "ts r \<le> ts (snd e)"
      using tsOf_distinct[OF d e(1)] e(2) fsid by (simp add: f_def)
    moreover have "x \<noteq> sid" using x nsid by auto
    ultimately have "e \<in> set (filter Q H)" using e by (simp add: Q_def)
    then show "x \<in> fst ` set (filter Q H)" using e(2) by force
  qed
  then have "card (set pre) \<le> card (fst ` set (filter Q H))"
    by (intro card_mono) auto
  also have "\<dots> \<le> card (set (filter Q H))" by (intro card_image_le) simp
  also have "\<dots> \<le> length (filter Q H)" by (rule card_length)
  finally have "length pre < 100"
    using few nsid(3) by (simp add: distinct_card Q_def)
  then have "set (drop 100 S) \<subseteq> set post"
    unfolding S by (auto simp: drop_Cons' dest: in_set_dropD)
  then have "sid \<notin> set (drop 100 S)" using nsid by blast
  then show ?thesis using m unfolding ev by simp
qed


lemma update_other_entries:
  "filter (\<lambda>e. fst e \<noteq> k \<and> P e) (AList.update k v h) = filter (\<lambda>e. fst e \<noteq> k \<and> P e) h"
  by (induction h) auto

lemma update_fresh:
  "k \<notin> fst ` set h \<Longrightarrow> AList.update k v h = h @ [(k, v)]"
  by (induction h) auto

lemma saved_record_survives:
  assumes wf: "wellFormed raw" and few: "length (notOlder sid now raw) < 100"
  shows "loadRecord (saveHistory sid now t idx raw) sid =
           Some \<lparr>time_h = t, segmentIndex = idx, ts = now\<rparr>"
proof -
  define r where "r = \<lparr>time_h = t, segmentIndex = idx, ts = now\<rparr>"
  define H where "H = AList.update sid r (records raw)"
  have d: "distinct (map fst H)"
    using wf by (simp add: H_def wellFormed_def AList.distinct_update)
  have "map_of H sid = Some r" by (simp add: H_def AList.update_conv')
  then have m: "(sid, r) \<in> set H" by (rule map_of_SomeD)
  have "filter (\<lambda>e. fst e \<noteq> sid \<and> ts r \<le> ts (snd e)) H = notOlder sid now raw"
    unfolding H_def notOlder_def by (simp add: update_other_entries r_def)
  then have "(sid, r) \<in> set (evict H)"
    using evict_keeps[OF d m] few by simp
  then have "map_of (evict H) sid = Some r"
    using distinct_evict[OF d] by (intro map_of_is_SomeI)
  moreover have "saveHistory sid now t idx raw = Stored (evict H)"
    using wf by (simp add: saveHistory_evict wellFormed_def H_def r_def)
  ultimately show ?thesis by (simp add: loadRecord_def records_def r_def)
qed

lemma insort_key_snoc:
  "f x \<le> f y \<Longrightarrow> insort_key f x (zs @ [y]) = insort_key f x zs @ [y]"
  by (induction zs) auto

lemma sort_key_snoc:
  assumes "\<forall>x\<in>set xs. f x \<le> f y"
  shows "sort_key f (xs @ [y]) = sort_key f xs @ [y]"
  using assms
proof (induction xs)
  case Nil
  then show ?case by simp
next
  case (Cons x xs)
  then have "sort_key f ((x # xs) @ [y]) = insort_key f x (sort_key f xs @ [y])"
    by simp
  also have "\<dots> = insort_key f x (sort_key f xs) @ [y]"
    using Cons.prems by (intro insort_key_snoc) simp
  finally show ?case by simp
qed

lemma newcomer_evicted:
  assumes d: "distinct (map fst h)" and l: "length h = 100"
    and fresh: "sid \<notin> fst ` set h" and newer: "\<forall>e\<in>set h. now \<le> ts (snd e)"
  shows "saveHistory sid now t idx (Stored h) = Stored h"
proof -
  define r where "r = \<lparr>time_h = t, segmentIndex = idx, ts = now\<rparr>"
  define H where "H = h @ [(sid, r)]"
  define f where "f = (\<lambda>k. - tsOf H k)"
  have dH: "distinct (map fst H)" using d fresh by (simp add: H_def)
  have fsid: "f sid = - now"
    using tsOf_distinct[OF dH, of "(sid, r)"] by (simp add: f_def H_def r_def)
  have "\<forall>x\<in>set (map fst h). f x \<le> f sid"
  proof
    fix x assume "x \<in> set (map fst h)"
    then obtain e where e: "e \<in> set h" "fst e = x" by auto
    then have "tsOf H x = ts (snd e)" using tsOf_distinct[OF dH, of e] by (simp add: H_def)
    then show "f x \<le> f sid" using newer e(1) fsid by (simp add: f_def)
  qed
  then have "sort_key f (map fst H) = sort_key f (map fst h) @ [sid]"
    by (simp add: H_def sort_key_snoc)
  then have "drop 100 (sort_key f (map fst H)) = [sid]" using l by simp
  then have "evict H = filter (\<lambda>e. fst e \<noteq> sid) H"
    using l by (simp add: evict_def f_def H_def)
  also have "\<dots> = h" using fresh by (auto simp: H_def filter_id_conv)
  finally have "evict H = h" .
  moreover have "saveHistory sid now t idx (Stored h) = Stored (evict H)"
    using fresh by (simp add: saveHistory_evict records_def H_def r_def update_fresh)
  ultimately show ?thesis by simp
qed


lemma rev_all_equal: "\<forall>x\<in>set ys. x = k \<Longrightarrow> rev ys = ys"
  by (metis replicate_length_same rev_replicate length_rev set_rev)

lemma sort_key_strictly_decreasing:
  assumes "sorted_wrt (\<lambda>x y. f y < f x) xs"
  shows "sort_key f xs = rev xs"
proof (rule properties_for_sort_key)
  show "mset (rev xs) = mset xs" by simp
  have inj: "\<And>a b. a \<in> set xs \<Longrightarrow> b \<in> set xs \<Longrightarrow> f a = f b \<Longrightarrow> a = b"
    using assms
  proof (induction xs)
    case Nil
    then show ?case by simp
  next
    case (Cons x xs)
    then show ?case by (auto simp: less_le)
  qed
  show "filter (\<lambda>x. f k = f x) (rev xs) = filter (\<lambda>x. f k = f x) xs" if "k \<in> set (rev xs)" for k
  proof -
    have "\<forall>x\<in>set (filter (\<lambda>x. f k = f x) xs). x = k" using inj that by auto
    then have "rev (filter (\<lambda>x. f k = f x) xs) = filter (\<lambda>x. f k = f x) xs"
      by (rule rev_all_equal)
    then show ?thesis by (simp add: rev_filter)
  qed
  have "sorted_wrt (\<lambda>a b. b \<le> a) (map f xs)"
    using assms by (simp add: sorted_wrt_map) (erule sorted_wrt_mono_rel[rotated], simp)
  then show "sorted (map f (rev xs))"
    by (simp add: rev_map[symmetric] sorted_wrt_rev)
qed

lemma filter_drop_distinct:
  assumes "distinct (map fst H)"
  shows "filter (\<lambda>e. fst e \<notin> set (take m (map fst H))) H = drop m H"
proof -
  have H: "H = take m H @ drop m H" by simp
  have d: "set (map fst (take m H)) \<inter> set (map fst (drop m H)) = {}"
    using assms by (metis H distinct_append map_append)
  have a: "filter (\<lambda>e. fst e \<notin> set (take m (map fst H))) (take m H) = []"
    by (auto simp: filter_empty_conv take_map)
  have b: "filter (\<lambda>e. fst e \<notin> set (take m (map fst H))) (drop m H) = drop m H"
    using d by (auto simp: filter_id_conv take_map)
  show ?thesis
    by (subst H) (simp only: filter_append a b append_Nil)
qed

lemma evict_increasing:
  assumes d: "distinct (map fst H)" and inc: "sorted_wrt (<) (map (\<lambda>e. ts (snd e)) H)"
  shows "evict H = drop (length H - 100) H"
proof (cases "length H > 100")
  case False
  then show ?thesis by (simp add: evict_def)
next
  case True
  define f where "f = (\<lambda>k. - tsOf H k)"
  have fk: "map f (map fst H) = map (\<lambda>e. - ts (snd e)) H"
    using tsOf_distinct[OF d] by (simp add: f_def)
  have "sorted_wrt (\<lambda>x y. f y < f x) (map fst H)"
  proof -
    have "sorted_wrt (\<lambda>a b. b < a) (map f (map fst H))"
      unfolding fk using inc by (simp add: sorted_wrt_map)
    then show ?thesis by (simp add: sorted_wrt_map)
  qed
  then have "sort_key f (map fst H) = rev (map fst H)"
    by (rule sort_key_strictly_decreasing)
  then have "set (drop 100 (sort_key f (map fst H))) = set (take (length H - 100) (map fst H))"
    by (simp add: drop_rev)
  then have "evict H = filter (\<lambda>e. fst e \<notin> set (take (length H - 100) (map fst H))) H"
    using True by (simp add: evict_def f_def)
  then show ?thesis by (simp add: filter_drop_distinct[OF d])
qed

lemma fst_entryOf: "fst (entryOf c) = sc_sessionId c"
  by (simp add: entryOf_def)

lemma ts_entryOf: "ts (snd (entryOf c)) = sc_now c"
  by (simp add: entryOf_def)

lemma saveAll_increasing:
  assumes "distinct (map sc_sessionId cs)" and "sorted_wrt (<) (map sc_now cs)"
  shows "saveAll cs Absent \<noteq> Malformed
       \<and> records (saveAll cs Absent) = map entryOf (drop (length cs - 100) cs)"
  using assms
proof (induction cs rule: rev_induct)
  case Nil
  then show ?case by (simp add: saveAll_def records_def)
next
  case (snoc c cs)
  define n where "n = length cs"
  define es where "es = map entryOf (drop (n - 100) cs)"
  have pre: "distinct (map sc_sessionId cs)" "sorted_wrt (<) (map sc_now cs)"
    using snoc.prems by (simp_all add: sorted_wrt_append)
  from snoc.IH[OF pre] have ok: "saveAll cs Absent \<noteq> Malformed"
    and rec: "records (saveAll cs Absent) = es" by (simp_all add: es_def n_def)
  have fresh: "sc_sessionId c \<notin> fst ` set es"
    using snoc.prems(1) by (auto simp: es_def fst_entryOf dest: in_set_dropD)
  define H where "H = map entryOf (drop (n - 100) (cs @ [c]))"
  have H: "H = es @ [entryOf c]" by (simp add: H_def es_def n_def)
  have sv: "saveAll (cs @ [c]) Absent = Stored (evict H)"
    using ok rec fresh
    by (simp add: saveAll_snoc saveHistory_evict update_fresh H entryOf_def)
  have dd: "distinct (map sc_sessionId (drop (n - 100) (cs @ [c])))"
    using distinct_drop[OF snoc.prems(1), of "n - 100"] by (simp only: drop_map)
  have dH: "distinct (map fst H)"
    using dd unfolding H_def map_map comp_def fst_entryOf .
  have "sorted_wrt (<) (map sc_now (drop (n - 100) (cs @ [c])))"
    using sorted_wrt_drop[OF snoc.prems(2), of "n - 100"] by (simp only: drop_map)
  then have iH: "sorted_wrt (<) (map (\<lambda>e. ts (snd e)) H)"
    unfolding H_def map_map comp_def ts_entryOf .
  have "evict H = drop (length H - 100) H" by (rule evict_increasing[OF dH iH])
  also have "\<dots> = map entryOf (drop (length H - 100 + (n - 100)) (cs @ [c]))"
    by (subst (2) H_def) (simp only: drop_map drop_drop)
  also have "length H - 100 + (n - 100) = length (cs @ [c]) - 100"
    by (simp add: H_def n_def; arith)
  finally show ?case using sv by (simp add: records_def)
qed


lemma saveAll_without_eviction:
  assumes "distinct (map sc_sessionId cs)" and "length cs \<le> 100"
  shows "saveAll cs Absent \<noteq> Malformed \<and> records (saveAll cs Absent) = map entryOf cs"
  using assms
proof (induction cs rule: rev_induct)
  case Nil
  then show ?case by (simp add: saveAll_def records_def)
next
  case (snoc c cs)
  then have ih: "saveAll cs Absent \<noteq> Malformed" "records (saveAll cs Absent) = map entryOf cs"
    by simp_all
  have fresh: "sc_sessionId c \<notin> fst ` set (map entryOf cs)"
    using snoc.prems(1) by (auto simp: fst_entryOf)
  have "evict (map entryOf cs @ [entryOf c]) = map entryOf cs @ [entryOf c]"
    using snoc.prems(2) by (simp add: evict_def)
  then show ?case
    using ih fresh
    by (simp add: saveAll_snoc saveHistory_evict update_fresh entryOf_def records_def)
qed

lemma saveAll_keeps_latest_readings:
  assumes "distinct (map sc_sessionId cs)"
  shows "saveAll cs Absent \<noteq> Malformed
       \<and> distinct (map fst (records (saveAll cs Absent)))
       \<and> set (records (saveAll cs Absent)) \<subseteq> set (map entryOf cs)
       \<and> length (records (saveAll cs Absent)) = min (length cs) 100
       \<and> (\<forall>c\<in>set cs. entryOf c \<notin> set (records (saveAll cs Absent)) \<longrightarrow>
            (\<forall>k\<in>set (records (saveAll cs Absent)). sc_now c \<le> ts (snd k)))"
  using assms
proof (induction cs rule: rev_induct)
  case Nil
  then show ?case by (simp add: saveAll_def records_def)
next
  case (snoc c cs)
  define S0 where "S0 = records (saveAll cs Absent)"
  define e where "e = entryOf c"
  define H where "H = S0 @ [e]"
  define S1 where "S1 = records (saveAll (cs @ [c]) Absent)"
  have dcs: "distinct (map sc_sessionId cs)" using snoc.prems by simp
  note ih = snoc.IH[OF dcs, folded S0_def]
  have ok: "saveAll cs Absent \<noteq> Malformed" and d0: "distinct (map fst S0)"
    and sub0: "set S0 \<subseteq> set (map entryOf cs)" and len0: "length S0 = min (length cs) 100"
    and ord0: "\<forall>c\<in>set cs. entryOf c \<notin> set S0 \<longrightarrow> (\<forall>k\<in>set S0. sc_now c \<le> ts (snd k))"
    using ih by blast+
  have fresh: "sc_sessionId c \<notin> fst ` set S0"
    using snoc.prems sub0 by (auto simp: fst_entryOf)
  have sv: "saveAll (cs @ [c]) Absent = Stored (evict H)"
    using ok fresh
    by (simp add: saveAll_snoc saveHistory_evict update_fresh H_def e_def entryOf_def S0_def)
  then have S1: "S1 = evict H" by (simp add: S1_def records_def)
  have dH: "distinct (map fst H)" using d0 fresh by (simp add: H_def e_def fst_entryOf)
  have subH: "set H \<subseteq> set (map entryOf (cs @ [c]))" using sub0 by (auto simp: H_def e_def)
  have c1: "saveAll (cs @ [c]) Absent \<noteq> Malformed" using sv by simp
  have c2: "distinct (map fst S1)" unfolding S1 by (rule distinct_evict[OF dH])
  have c3: "set S1 \<subseteq> set (map entryOf (cs @ [c]))"
    unfolding S1 using set_evict_subset[of H] subH by blast
  show ?case
  proof (cases "length H > 100")
    case False
    then have small: "length (cs @ [c]) \<le> 100" using len0 by (simp add: H_def)
    have all: "S1 = map entryOf (cs @ [c])"
      using saveAll_without_eviction[OF snoc.prems small] by (simp add: S1_def)
    have "length S1 = min (length (cs @ [c])) 100" using small all by simp
    moreover have "\<forall>c'\<in>set (cs @ [c]). entryOf c' \<in> set S1" unfolding all by simp
    ultimately show ?thesis using c1 c2 c3 unfolding S1_def by blast
  next
    case True
    then have big: "100 \<le> length cs" using len0 by (simp add: H_def)
    have l1: "length S1 = 100" unfolding S1 by (rule evict_exact(1)[OF dH True])
    have o1: "\<forall>k\<in>set S1. \<forall>r\<in>set H - set S1. ts (snd r) \<le> ts (snd k)"
      unfolding S1 by (rule evict_exact(2)[OF dH True])
    have c4: "length S1 = min (length (cs @ [c])) 100" using l1 big by simp
    have distH: "distinct H" using dH by (rule distinct_map[THEN iffD1, THEN conjunct1])
    have "card (set S1) \<le> 100" using l1 card_length[of S1] by simp
    moreover have "card (set H) = 101" using distH True len0 big by (simp add: distinct_card H_def)
    ultimately have lt: "card (set S1) < card (set H)" by simp
    have "set H - set S1 \<noteq> {}"
    proof
      assume "set H - set S1 = {}"
      then have "set H \<subseteq> set S1" by blast
      then have "card (set H) \<le> card (set S1)" by (intro card_mono) simp_all
      then show False using lt by simp
    qed
    then obtain r where r: "r \<in> set H" "r \<notin> set S1" by blast
    have c5: "\<forall>c'\<in>set (cs @ [c]). entryOf c' \<notin> set S1 \<longrightarrow> (\<forall>k\<in>set S1. sc_now c' \<le> ts (snd k))"
    proof (intro ballI impI)
      fix c' k assume c': "c' \<in> set (cs @ [c])" and out: "entryOf c' \<notin> set S1" and k: "k \<in> set S1"
      have kH: "k \<in> set H" using k S1 set_evict_subset by blast
      show "sc_now c' \<le> ts (snd k)"
      proof (cases "entryOf c' \<in> set H")
        case True
        then show ?thesis using o1 k out by (force simp: ts_entryOf)
      next
        case False
        then have c'cs: "c' \<in> set cs" and out0: "entryOf c' \<notin> set S0"
          using c' by (auto simp: H_def e_def)
        show ?thesis
        proof (cases "k \<in> set S0")
          case True
          then show ?thesis using ord0 c'cs out0 by blast
        next
          case False
          then have ke: "k = e" using kH by (simp add: H_def)
          then have "r \<noteq> e" using r(2) k by blast
          then have r0: "r \<in> set S0" using r(1) by (simp add: H_def)
          have "sc_now c' \<le> ts (snd r)" using ord0 c'cs out0 r0 by blast
          also have "\<dots> \<le> ts (snd k)" using o1 k r by blast
          finally show ?thesis .
        qed
      qed
    qed
    show ?thesis using c1 c2 c3 c4 c5 unfolding S1_def by blast
  qed
qed

subsection \<open>The sample calls\<close>

text \<open>Intervals of sample calls stay folded.\<close>

declare upt_rec_numeral [simp del]

lemma sessionName_eq: "sessionName i = sessionName j \<longleftrightarrow> i = j"
  by (simp add: sessionName_def)

lemma distinct_sample_ids: "distinct (map sc_sessionId (map sampleCall xs)) \<longleftrightarrow> distinct xs"
  by (simp add: distinct_map inj_on_def comp_def sampleCall_def sessionName_eq)

lemma increasing_sample_clock: "sorted_wrt (<) (map sc_now (map sampleCall [a..<b]))"
  by (simp add: sorted_wrt_map comp_def sampleCall_def)

lemma records_fullStore: "records fullStore = map entryOf (map sampleCall [1..<101])"
  by (simp add: fullStore_def records_def)

lemma keys_fullStore: "map fst (records fullStore) = map sessionName [1..<101]"
  by (simp add: records_fullStore fst_entryOf sampleCall_def comp_def)

lemma wellFormed_fullStore: "wellFormed fullStore"
  unfolding wellFormed_def keys_fullStore
  by (simp add: fullStore_def distinct_map inj_on_def sessionName_eq)

lemma saveAll_append: "saveAll (xs @ ys) raw = saveAll ys (saveAll xs raw)"
  by (simp add: saveAll_def)

lemma saveAll_all_evicted:
  assumes "distinct (map fst h)" and "length h = 100"
    and "\<forall>c\<in>set ys. sc_sessionId c \<notin> fst ` set h \<and> (\<forall>e\<in>set h. sc_now c \<le> ts (snd e))"
  shows "saveAll ys (Stored h) = Stored h"
  using assms(3)
proof (induction ys rule: rev_induct)
  case Nil
  then show ?case by (simp add: saveAll_def)
next
  case (snoc c ys)
  then show ?case
    using newcomer_evicted[OF assms(1,2), of "sc_sessionId c" "sc_now c"]
    by (simp add: saveAll_snoc)
qed

text \<open>
  C4.  After a save the store holds at most 100 records, and so after any non-empty
  sequence of saves, or any sequence from a store of at most 100 records.  When the cap
  forces an eviction from a well-formed store, exactly 100 records remain, each as it was,
  and every removed record has a \<open>savedAt\<close> at most that of every record kept.  Saving
  \<open>n\<close> pairwise different sessions from an empty store leaves \<open>min n 100\<close> of them, and
  every session dropped was saved at a clock reading at most that of every session
  retained: of 150 sessions, the 100 most recently saved by \<open>savedAt\<close>.  When the clock
  readings increase strictly along the calls, these are the last 100 calls.
\<close>

theorem history_cap_and_eviction:
  "length (records (saveHistory sid now t idx raw)) \<le> 100
   \<and> (calls \<noteq> [] \<or> length (records raw) \<le> 100 \<longrightarrow> length (records (saveAll calls raw)) \<le> 100)
   \<and> (let history = AList.update sid \<lparr>time_h = t, segmentIndex = idx, ts = now\<rparr> (records raw);
           kept = records (saveHistory sid now t idx raw)
       in wellFormed raw \<and> length history > 100 \<longrightarrow>
            length kept = 100 \<and> set kept \<subseteq> set history
            \<and> (\<forall>k\<in>set kept. \<forall>r\<in>set history - set kept. ts (snd r) \<le> ts (snd k)))
   \<and> (distinct (map sc_sessionId cs) \<longrightarrow>
        (let kept = records (saveAll cs Absent)
         in length kept = min (length cs) 100 \<and> set kept \<subseteq> set (map entryOf cs)
            \<and> (\<forall>c\<in>set cs. entryOf c \<notin> set kept \<longrightarrow> (\<forall>k\<in>set kept. sc_now c \<le> ts (snd k)))
            \<and> (length cs = 150 \<longrightarrow> length kept = 100)
            \<and> (sorted_wrt (<) (map sc_now cs) \<longrightarrow>
                  kept = map entryOf (drop (length cs - 100) cs))
            \<and> (sorted_wrt (<) (map sc_now cs) \<and> length cs = 150 \<longrightarrow>
                  kept = map entryOf (drop 50 cs))))"
proof -
  define history where
    "history = AList.update sid \<lparr>time_h = t, segmentIndex = idx, ts = now\<rparr> (records raw)"
  have a: "length (records (saveHistory sid now t idx raw)) \<le> 100"
    by (rule length_records_saveHistory)
  have b: "calls \<noteq> [] \<or> length (records raw) \<le> 100 \<longrightarrow>
      length (records (saveAll calls raw)) \<le> 100"
    using length_records_saveAll by blast
  have c: "length (records (saveHistory sid now t idx raw)) = 100
      \<and> set (records (saveHistory sid now t idx raw)) \<subseteq> set history
      \<and> (\<forall>k\<in>set (records (saveHistory sid now t idx raw)).
            \<forall>r\<in>set history - set (records (saveHistory sid now t idx raw)). ts (snd r) \<le> ts (snd k))"
    if wf: "wellFormed raw" and l: "length history > 100"
  proof -
    have d: "distinct (map fst history)"
      using wf by (simp add: history_def wellFormed_def AList.distinct_update)
    have "saveHistory sid now t idx raw = Stored (evict history)"
      using wf by (simp add: saveHistory_evict wellFormed_def history_def)
    then have "records (saveHistory sid now t idx raw) = evict history"
      by (simp add: records_def)
    then show ?thesis
      using evict_exact[OF d l] set_evict_subset[of history] by simp
  qed
  have d: "length (records (saveAll cs Absent)) = min (length cs) 100
      \<and> set (records (saveAll cs Absent)) \<subseteq> set (map entryOf cs)
      \<and> (\<forall>c\<in>set cs. entryOf c \<notin> set (records (saveAll cs Absent)) \<longrightarrow>
            (\<forall>k\<in>set (records (saveAll cs Absent)). sc_now c \<le> ts (snd k)))
      \<and> (length cs = 150 \<longrightarrow> length (records (saveAll cs Absent)) = 100)"
    if "distinct (map sc_sessionId cs)"
    using saveAll_keeps_latest_readings[OF that] by simp
  have e: "records (saveAll cs Absent) = map entryOf (drop (length cs - 100) cs)
      \<and> (length cs = 150 \<longrightarrow> records (saveAll cs Absent) = map entryOf (drop 50 cs))"
    if "distinct (map sc_sessionId cs)" and "sorted_wrt (<) (map sc_now cs)"
    using saveAll_increasing[OF that] by simp
  show ?thesis
    using a b c d e unfolding Let_def history_def by blast
qed

theorem history_cap_and_eviction_witness:
  "[sampleCall 0] \<noteq> []
   \<and> wellFormed fullStore
   \<and> length (AList.update (sessionName 0) \<lparr>time_h = 7, segmentIndex = Num 0, ts = 200\<rparr>
               (records fullStore)) > 100
   \<and> distinct (map sc_sessionId (map sampleCall [0..<150]))
   \<and> sorted_wrt (<) (map sc_now (map sampleCall [0..<150]))
   \<and> length (map sampleCall [0..<150]) = 150
   \<and> length (records (saveAll [sampleCall 0] fullStore)) \<le> 100
   \<and> length (records (saveHistory (sessionName 0) 200 7 (Num 0) fullStore)) = 100
   \<and> records (saveAll (map sampleCall [0..<150]) Absent) = map entryOf (map sampleCall [50..<150])
   \<and> sampleCall 0 \<in> set (map sampleCall [0..<150])
   \<and> entryOf (sampleCall 0) \<notin> set (records (saveAll (map sampleCall [0..<150]) Absent))"
proof -
  have h1: "[sampleCall 0] \<noteq> []" by simp
  have h2: "wellFormed fullStore" by (rule wellFormed_fullStore)
  have fresh: "sessionName 0 \<notin> fst ` set (records fullStore)"
    using keys_fullStore by (metis (no_types, lifting) list.set_map atLeastLessThan_iff
        imageE not_one_le_zero sessionName_eq set_upt)
  have h3: "length (AList.update (sessionName 0) \<lparr>time_h = 7, segmentIndex = Num 0, ts = 200\<rparr>
               (records fullStore)) > 100"
    using fresh by (simp add: update_fresh) (simp add: records_fullStore)
  have h4: "distinct (map sc_sessionId (map sampleCall [0..<150]))"
    by (simp only: distinct_sample_ids distinct_upt)
  have h5: "sorted_wrt (<) (map sc_now (map sampleCall [0..<150]))"
    by (rule increasing_sample_clock)
  have h6: "length (map sampleCall [0..<150]) = 150" by simp
  have dr: "drop 50 (map sampleCall [0..<150]) = map sampleCall [50..<150]"
    by (simp add: drop_map)
  have h7: "sampleCall 0 \<in> set (map sampleCall [0..<150])" by simp
  have out: "entryOf (sampleCall 0) \<notin> set (map entryOf (map sampleCall [50..<150]))"
  proof
    assume "entryOf (sampleCall 0) \<in> set (map entryOf (map sampleCall [50..<150]))"
    then have "fst (entryOf (sampleCall 0)) \<in> fst ` set (map entryOf (map sampleCall [50..<150]))"
      by (rule imageI)
    then show False by (auto simp: fst_entryOf sampleCall_def sessionName_eq)
  qed
  have r: "records (saveAll (map sampleCall [0..<150]) Absent)
      = map entryOf (map sampleCall [50..<150])"
    using history_cap_and_eviction[of "sessionName 0" 200 7 "Num 0" fullStore "[sampleCall 0]"
        "map sampleCall [0..<150]"] h4 h5 h6 dr
    unfolding Let_def by simp
  have rest: "length (records (saveAll [sampleCall 0] fullStore)) \<le> 100
      \<and> length (records (saveHistory (sessionName 0) 200 7 (Num 0) fullStore)) = 100"
    using history_cap_and_eviction[of "sessionName 0" 200 7 "Num 0" fullStore "[sampleCall 0]"
        "map sampleCall [0..<150]"] h1 h2 h3
    unfolding Let_def by blast
  show ?thesis
    using h1 h2 h3 h4 h5 h6 h7 out r rest by simp
qed

text \<open>
  Recency is what \<^verbatim>\<open>Date.now()\<close> said, not the order of the calls: 150 different
  sessions, the first hundred saved at the readings 50 to 149 and the last fifty at the
  readings 0 to 49, leave the first hundred in the store.
\<close>

lemma recency_is_by_clock_reading:
  "distinct (map sc_sessionId (map sampleCall ([50..<150] @ [0..<50])))
   \<and> length (map sampleCall ([50..<150] @ [0..<50])) = 150
   \<and> records (saveAll (map sampleCall ([50..<150] @ [0..<50])) Absent)
       = map entryOf (take 100 (map sampleCall ([50..<150] @ [0..<50])))
   \<and> records (saveAll (map sampleCall ([50..<150] @ [0..<50])) Absent)
       \<noteq> map entryOf (drop 50 (map sampleCall ([50..<150] @ [0..<50])))"
proof -
  define h where "h = map entryOf (map sampleCall [50..<150])"
  have d: "distinct (map sc_sessionId (map sampleCall ([50..<150] @ [0..<50])))"
    by (simp only: distinct_sample_ids) auto
  have first: "saveAll (map sampleCall [50..<150]) Absent \<noteq> Malformed"
    "records (saveAll (map sampleCall [50..<150]) Absent) = h"
    using saveAll_increasing[OF _ increasing_sample_clock[of 50 150]]
    by (simp_all only: distinct_sample_ids distinct_upt h_def length_map length_upt,
        simp_all)
  have lh: "length h = 100" by (simp add: h_def)
  have st: "saveAll (map sampleCall [50..<150]) Absent = Stored h"
    using first lh by (cases "saveAll (map sampleCall [50..<150]) Absent")
      (auto simp: records_def)
  have dh: "distinct (map fst h)"
    by (simp add: h_def comp_def fst_entryOf sampleCall_def distinct_map inj_on_def sessionName_eq)
  have late: "\<forall>c\<in>set (map sampleCall [0..<50]).
      sc_sessionId c \<notin> fst ` set h \<and> (\<forall>e\<in>set h. sc_now c \<le> ts (snd e))"
    by (auto simp: h_def fst_entryOf ts_entryOf sampleCall_def sessionName_eq)
  have res: "saveAll (map sampleCall ([50..<150] @ [0..<50])) Absent = Stored h"
    using saveAll_all_evicted[OF dh lh late] by (simp add: saveAll_append st)
  have tk: "take 100 (map sampleCall ([50..<150] @ [0..<50])) = map sampleCall [50..<150]"
    by simp
  have ne: "h \<noteq> map entryOf (drop 50 (map sampleCall ([50..<150] @ [0..<50])))"
  proof
    assume "h = map entryOf (drop 50 (map sampleCall ([50..<150] @ [0..<50])))"
    then have "set (map fst h) = set (map fst (map entryOf (drop 50 (map sampleCall ([50..<150] @ [0..<50])))))"
      by simp
    moreover have "sessionName 50 \<in> set (map fst h)"
      by (simp add: h_def comp_def fst_entryOf sampleCall_def image_iff sessionName_eq)
    moreover have "sessionName 50 \<notin> set (map fst (map entryOf (drop 50 (map sampleCall ([50..<150] @ [0..<50])))))"
      by (auto simp: comp_def fst_entryOf sampleCall_def image_iff sessionName_eq drop_map
          dest: in_set_dropD)
    ultimately show False by blast
  qed
  show ?thesis using d res tk ne by (simp add: records_def h_def)
qed


section \<open>The history store: a save followed by a load\<close>

text \<open>
  C5, as amended.  For every session, time, segment index and clock reading, and every
  well-formed prior store in which fewer than 100 records of other sessions carry a
  \<open>savedAt\<close> at or after that clock reading, the store after the save maps the session to
  exactly that time and segment index: the record replaces an earlier one of the session
  and survives the eviction of the same save, so the load returns it.
\<close>

theorem saved_record_is_loaded:
  assumes "wellFormed raw" and "length (notOlder sid now raw) < 100"
  shows "loadRecord (saveHistory sid now t idx raw) sid =
           Some \<lparr>time_h = t, segmentIndex = idx, ts = now\<rparr>"
  using assms by (rule saved_record_survives)

lemma notOlder_fullStore: "100 < now \<Longrightarrow> notOlder sid now fullStore = []"
  by (auto simp: notOlder_def records_fullStore filter_empty_conv ts_entryOf sampleCall_def)

theorem saved_record_is_loaded_witness:
  "wellFormed fullStore \<and> length (notOlder (sessionName 0) 200 fullStore) < 100
   \<and> loadRecord (saveHistory (sessionName 0) 200 7 (Num 2) fullStore) (sessionName 0) =
           Some \<lparr>time_h = 7, segmentIndex = Num 2, ts = 200\<rparr>"
proof -
  have h: "wellFormed fullStore" "length (notOlder (sessionName 0) 200 fullStore) < 100"
    by (simp_all add: wellFormed_fullStore notOlder_fullStore)
  show ?thesis using saved_record_is_loaded[OF h, of 7 "Num 2"] h by simp
qed

text \<open>
  For an arbitrary prior store the claim as first stated fails: the eviction goes by
  \<open>savedAt\<close> alone.  On a store of 100 other sessions whose records carry the readings 1 to
  100, a save at reading 0 stores nothing, and the load finds no record of the session.
\<close>

theorem saved_record_evicted_by_same_save:
  "wellFormed fullStore
   \<and> saveHistory (sessionName 0) 0 7 (Num 2) fullStore = fullStore
   \<and> loadRecord (saveHistory (sessionName 0) 0 7 (Num 2) fullStore) (sessionName 0) = None"
proof -
  define h where "h = map entryOf (map sampleCall [1..<101])"
  have f: "fullStore = Stored h" by (simp add: fullStore_def h_def)
  have dh: "distinct (map fst h)"
    by (simp add: h_def comp_def fst_entryOf sampleCall_def distinct_map inj_on_def sessionName_eq)
  have lh: "length h = 100" by (simp add: h_def)
  have fresh: "sessionName 0 \<notin> fst ` set h"
    by (auto simp: h_def fst_entryOf sampleCall_def sessionName_eq)
  have newer: "\<forall>e\<in>set h. 0 \<le> ts (snd e)"
    by (auto simp: h_def ts_entryOf sampleCall_def)
  have s: "saveHistory (sessionName 0) 0 7 (Num 2) fullStore = fullStore"
    unfolding f by (rule newcomer_evicted[OF dh lh fresh newer])
  have "map_of h (sessionName 0) = None"
    using fresh by (simp add: map_of_eq_None_iff)
  then show ?thesis using s wellFormed_fullStore by (simp add: loadRecord_def records_def f)
qed

section \<open>The smoothed clock\<close>

text \<open>
  C6.  The handler sets the smoothed clock to the position of the video exactly when that
  position differs by more than half a second from the \<^verbatim>\<open>smoothTime\<close> of its closure,
  which is the value from the render that ran the effect, not the present smoothed clock.
  For the handler created at mount the captured value is 0: after the animation-frame loop
  has moved the smoothed clock to 10, an update at position 10.2 resets the clock to 10.2
  although the two clocks are 0.2 apart.
\<close>

theorem time_update_compares_with_captured_clock:
  "smoothTime (fst (handleTimeUpdate cl now v (st, raw))) =
      (if \<bar>v - cl_smoothTime cl\<bar> > 0.5 then v else smoothTime st)
   \<and> cl_smoothTime (closureOf session mountState) = 0
   \<and> smoothTime (updateSmoothTime False 10 (initializePlayer mountState)) = 10
   \<and> smoothTime (fst (handleTimeUpdate (closureOf session mountState) now 10.2
          (updateSmoothTime False 10 (initializePlayer mountState), raw))) = 10.2
   \<and> \<bar>10.2 - smoothTime (updateSmoothTime False 10 (initializePlayer mountState))\<bar> \<le> 0.5"
  by (simp add: handleTimeUpdate_def Let_def closureOf_def mountState_def updateSmoothTime_def
      initializePlayer_def)

section \<open>Resuming from the history\<close>

lemma loadHistoryEffect_cases:
  "loadHistoryEffect raw session st =
     (case loadRecord raw (id_s session) of
        None \<Rightarrow> st
      | Some record \<Rightarrow>
          if time_h record > 5 \<and> segmentIndex record \<noteq> Undefined
             \<and> jsGreaterEq (segmentIndex record) 0
             \<and> jsLess (segmentIndex record) (real (length (segments session)))
          then st\<lparr>currentSegmentIndex := segmentIndex record,
                  initialSeekTimeRef := Some (time_h record)\<rparr>
          else st)"
  by (cases raw) (auto simp: loadHistoryEffect_def loadRecord_def records_def split: option.splits)

text \<open>
  C7.  Opening a session applies a stored position only if its saved time is above
  5 seconds; for a record with a time of at most 5 seconds the effect changes nothing, and
  the fresh component plays segment 0 from time 0 without a seek.
\<close>

theorem resume_only_after_five_seconds:
  "(initialSeekTimeRef (loadHistoryEffect raw session mountState) = Some t \<longrightarrow>
      5 < t \<and> (\<exists>record. loadRecord raw (id_s session) = Some record \<and> time_h record = t))
   \<and> (loadRecord raw (id_s session) = Some record \<and> time_h record \<le> 5 \<longrightarrow>
        loadHistoryEffect raw session st = st
        \<and> currentSegmentIndex (loadHistoryEffect raw session mountState) = Num 0
        \<and> initialSeekTimeRef (loadHistoryEffect raw session mountState) = None
        \<and> currentTime (initializePlayer (loadHistoryEffect raw session mountState)) = 0
        \<and> fst (onPlayerReady (v, initializePlayer (loadHistoryEffect raw session mountState))) = v)"
  by (auto simp: loadHistoryEffect_cases mountState_def initializePlayer_def startTime_def
      onPlayerReady_def split: option.splits if_splits)

lemma loadRecord_sampleHistory:
  "loadRecord (sampleHistory t i) (id_s sampleSession) = Some \<lparr>time_h = t, segmentIndex = i, ts = 1\<rparr>"
  by (simp add: loadRecord_def records_def sampleHistory_def sampleSession_def)

lemma length_segments_sampleSession: "length (segments sampleSession) = 2"
  by (simp add: sampleSession_def)

theorem resume_only_after_five_seconds_witness:
  "initialSeekTimeRef (loadHistoryEffect (sampleHistory 42 (Num 1)) sampleSession mountState) = Some 42
   \<and> (5::real) < 42
   \<and> loadRecord (sampleHistory 5 (Num 1)) (id_s sampleSession)
        = Some \<lparr>time_h = 5, segmentIndex = Num 1, ts = 1\<rparr>
   \<and> time_h \<lparr>time_h = 5, segmentIndex = Num 1, ts = 1\<rparr> \<le> 5
   \<and> loadHistoryEffect (sampleHistory 5 (Num 1)) sampleSession mountState = mountState
   \<and> currentTime (initializePlayer (loadHistoryEffect (sampleHistory 5 (Num 1)) sampleSession mountState)) = 0"
proof -
  have a: "initialSeekTimeRef (loadHistoryEffect (sampleHistory 42 (Num 1)) sampleSession mountState) = Some 42"
    by (simp add: loadHistoryEffect_cases loadRecord_sampleHistory length_segments_sampleSession
        jsGreaterEq_def jsLess_def toNumber_def)
  have b: "loadRecord (sampleHistory 5 (Num 1)) (id_s sampleSession)
        = Some \<lparr>time_h = 5, segmentIndex = Num 1, ts = 1\<rparr>"
    by (rule loadRecord_sampleHistory)
  have c: "(5::real) < 42"
    using resume_only_after_five_seconds[of "sampleHistory 42 (Num 1)" sampleSession 42
        "\<lparr>time_h = 5, segmentIndex = Num 1, ts = 1\<rparr>" mountState 0] a
    by blast
  have b5: "time_h \<lparr>time_h = 5, segmentIndex = Num 1, ts = 1\<rparr> \<le> 5" by simp
  have d: "loadHistoryEffect (sampleHistory 5 (Num 1)) sampleSession mountState = mountState
     \<and> currentTime (initializePlayer
          (loadHistoryEffect (sampleHistory 5 (Num 1)) sampleSession mountState)) = 0"
    using resume_only_after_five_seconds[of "sampleHistory 5 (Num 1)" sampleSession 0
        "\<lparr>time_h = 5, segmentIndex = Num 1, ts = 1\<rparr>" mountState 0] b b5
    by blast
  show ?thesis using a b b5 c d by blast
qed

subsection \<open>The segment index of a stored record\<close>

text \<open>
  A record whose segment index is missing, negative, or at least the number of segments is
  ignored: the effect changes nothing, so the fresh component plays segment 0 without a
  seek.
\<close>

lemma resume_ignores_listed_indices:
  assumes "loadRecord raw (id_s session) = Some record"
    and "segmentIndex record = Undefined
         \<or> (\<exists>r. segmentIndex record = Num r \<and> (r < 0 \<or> real (length (segments session)) \<le> r))"
  shows "loadHistoryEffect raw session st = st"
    and "currentSegmentIndex (loadHistoryEffect raw session mountState) = Num 0"
    and "initialSeekTimeRef (loadHistoryEffect raw session mountState) = None"
  using assms
  by (auto simp: loadHistoryEffect_cases mountState_def jsGreaterEq_def jsLess_def toNumber_def)

text \<open>
  C10.  The three guards of the effect do not keep the index inside the segment array.  A
  stored index of \<open>0.5\<close>, or \<^verbatim>\<open>null\<close>, is not \<^verbatim>\<open>undefined\<close>, compares at least 0 and
  below the number of segments, and so becomes the current index together with the seek
  time; \<^verbatim>\<open>session.segments\<close> has no element there, and the current segment is
  \<^verbatim>\<open>undefined\<close> in a session of two segments.
\<close>

theorem resume_accepts_fractional_and_null_index:
  "segments sampleSession \<noteq> []
   \<and> loadRecord (sampleHistory 42 (Num 0.5)) (id_s sampleSession)
        = Some \<lparr>time_h = 42, segmentIndex = Num 0.5, ts = 1\<rparr>
   \<and> currentSegmentIndex (loadHistoryEffect (sampleHistory 42 (Num 0.5)) sampleSession mountState)
        = Num 0.5
   \<and> initialSeekTimeRef (loadHistoryEffect (sampleHistory 42 (Num 0.5)) sampleSession mountState)
        = Some 42
   \<and> currentSegment sampleSession
         (loadHistoryEffect (sampleHistory 42 (Num 0.5)) sampleSession mountState) = None
   \<and> currentSegmentIndex (loadHistoryEffect (sampleHistory 42 Null) sampleSession mountState)
        = Null
   \<and> currentSegment sampleSession
         (loadHistoryEffect (sampleHistory 42 Null) sampleSession mountState) = None
   \<and> currentSegment sampleSession mountState = Some (sampleSegment ''a.flv'' (Some ''a.xml''))"
  by (simp add: loadHistoryEffect_cases loadRecord_sampleHistory length_segments_sampleSession
      jsGreaterEq_def jsLess_def toNumber_def currentSegment_def jsIndex_def)
     (simp add: sampleSession_def mountState_def)

section \<open>Loading the comments of a segment\<close>

lemma segments_sampleSession:
  "currentSegment sampleSession (st\<lparr>currentSegmentIndex := Num 0\<rparr>)
     = Some (sampleSegment ''a.flv'' (Some ''a.xml''))"
  "currentSegment sampleSession (st\<lparr>currentSegmentIndex := Num 1\<rparr>)
     = Some (sampleSegment ''b.flv'' None)"
  by (simp_all add: currentSegment_def jsIndex_def sampleSession_def)

lemma segments_loggedSession:
  "currentSegment loggedSession (st\<lparr>currentSegmentIndex := Num 0\<rparr>)
     = Some (sampleSegment ''x.flv'' (Some ''x.xml''))"
  "currentSegment loggedSession (st\<lparr>currentSegmentIndex := Num 1\<rparr>)
     = Some (sampleSegment ''c.flv'' (Some ''c.xml''))"
  by (simp_all add: currentSegment_def jsIndex_def loggedSession_def)

text \<open>
  When no other call waits, a segment without a comment log, or with one that fails to
  read or parse, ends with the empty comment list, and no other cell of the state changes.
\<close>

lemma loadDanmaku_alone:
  "danmakuFile segment = None \<Longrightarrow> loadDanmaku segment (st, []) = (st\<lparr>danmakuData := []\<rparr>, [])"
  "danmakuFile segment = Some f \<Longrightarrow> parseDanmakuXml f = Inl e \<Longrightarrow>
     loadDanmakuSettled parseDanmakuXml f (loadDanmaku segment (st, []))
       = (st\<lparr>danmakuData := []\<rparr>, [])"
  by (simp_all add: loadDanmaku_def loadDanmakuSettled_def)

text \<open>
  C9.  The failure, or the absence, of one segment's comment log is not confined to that
  segment.  In the session whose second segment has no log: the component mounts on the
  first segment and starts its parse, the second segment is selected and the comments are
  emptied, then the parse of the first segment is fulfilled; the current segment has no
  log and the list holds the first segment's comments.  In the session with two logs: the
  parse of the first segment is still waiting when the second is selected, the second
  segment's comments arrive, and then the first parse is rejected; the current segment's
  log was read, and its comments are gone.
\<close>

theorem stale_load_changes_other_segment:
  "currentSegment sampleSession
       (fst (loadDanmakuSettled sampleParser ''a.xml''
              (selectSegment sampleSession 1
                 (loadDanmaku (sampleSegment ''a.flv'' (Some ''a.xml'')) (mountState, [])))))
     = Some (sampleSegment ''b.flv'' None)
   \<and> danmakuFile (sampleSegment ''b.flv'' None) = None
   \<and> danmakuData
       (fst (loadDanmakuSettled sampleParser ''a.xml''
              (selectSegment sampleSession 1
                 (loadDanmaku (sampleSegment ''a.flv'' (Some ''a.xml'')) (mountState, [])))))
     = [textItem 1 ''a'']
   \<and> currentSegment loggedSession
       (fst (loadDanmakuSettled sampleParser ''x.xml''
              (loadDanmakuSettled sampleParser ''c.xml''
                 (selectSegment loggedSession 1
                    (loadDanmaku (sampleSegment ''x.flv'' (Some ''x.xml'')) (mountState, []))))))
     = Some (sampleSegment ''c.flv'' (Some ''c.xml''))
   \<and> sampleParser ''c.xml'' = Inr [textItem 2 ''c'']
   \<and> danmakuData
       (fst (loadDanmakuSettled sampleParser ''c.xml''
              (selectSegment loggedSession 1
                 (loadDanmaku (sampleSegment ''x.flv'' (Some ''x.xml'')) (mountState, [])))))
     = [textItem 2 ''c'']
   \<and> danmakuData
       (fst (loadDanmakuSettled sampleParser ''x.xml''
              (loadDanmakuSettled sampleParser ''c.xml''
                 (selectSegment loggedSession 1
                    (loadDanmaku (sampleSegment ''x.flv'' (Some ''x.xml'')) (mountState, []))))))
     = []"
proof -
  have m: "currentSegmentIndex mountState = Num 0" by (simp add: mountState_def)
  have a0: "loadDanmaku (sampleSegment ''a.flv'' (Some ''a.xml'')) (mountState, [])
      = (mountState, [''a.xml''])"
    by (simp add: loadDanmaku_def sampleSegment_def)
  have a1: "selectSegment sampleSession 1 (mountState, [''a.xml''])
      = (mountState\<lparr>currentSegmentIndex := Num 1, danmakuData := []\<rparr>, [''a.xml''])"
    using segments_sampleSession(2)[of mountState]
    by (simp add: selectSegment_def m Let_def loadDanmaku_def sampleSegment_def)
  have a2: "loadDanmakuSettled sampleParser ''a.xml''
        (mountState\<lparr>currentSegmentIndex := Num 1, danmakuData := []\<rparr>, [''a.xml''])
      = (mountState\<lparr>currentSegmentIndex := Num 1, danmakuData := [textItem 1 ''a'']\<rparr>, [])"
    by (simp add: loadDanmakuSettled_def sampleParser_def)
  have x0: "loadDanmaku (sampleSegment ''x.flv'' (Some ''x.xml'')) (mountState, [])
      = (mountState, [''x.xml''])"
    by (simp add: loadDanmaku_def sampleSegment_def)
  have x1: "selectSegment loggedSession 1 (mountState, [''x.xml''])
      = (mountState\<lparr>currentSegmentIndex := Num 1\<rparr>, [''x.xml'', ''c.xml''])"
    using segments_loggedSession(2)[of mountState]
    by (simp add: selectSegment_def m Let_def loadDanmaku_def sampleSegment_def)
  have x2: "loadDanmakuSettled sampleParser ''c.xml''
        (mountState\<lparr>currentSegmentIndex := Num 1\<rparr>, [''x.xml'', ''c.xml''])
      = (mountState\<lparr>currentSegmentIndex := Num 1, danmakuData := [textItem 2 ''c'']\<rparr>, [''x.xml''])"
    by (simp add: loadDanmakuSettled_def sampleParser_def)
  have x3: "loadDanmakuSettled sampleParser ''x.xml''
        (mountState\<lparr>currentSegmentIndex := Num 1, danmakuData := [textItem 2 ''c'']\<rparr>, [''x.xml''])
      = (mountState\<lparr>currentSegmentIndex := Num 1, danmakuData := []\<rparr>, [])"
    by (simp add: loadDanmakuSettled_def sampleParser_def)
  have b: "danmakuFile (sampleSegment ''b.flv'' None) = None" by (simp add: sampleSegment_def)
  have c: "sampleParser ''c.xml'' = Inr [textItem 2 ''c'']" by (simp add: sampleParser_def)
  have s1: "currentSegment sampleSession
      (mountState\<lparr>currentSegmentIndex := Num 1, danmakuData := [textItem 1 ''a'']\<rparr>)
      = Some (sampleSegment ''b.flv'' None)"
    by (simp add: currentSegment_def jsIndex_def sampleSession_def)
  have s2: "currentSegment loggedSession (mountState\<lparr>currentSegmentIndex := Num 1, danmakuData := []\<rparr>)
      = Some (sampleSegment ''c.flv'' (Some ''c.xml''))"
    by (simp add: currentSegment_def jsIndex_def loggedSession_def)
  show ?thesis
    unfolding a0 a1 a2 x0 x1 x2 x3 using b c s1 s2 by simp
qed

end
